theory Spec2Isabelle
  imports Main "HOL-Library.Sublist" "HOL-Library.AList"
begin

section \<open>Python strings\<close>

text \<open>
  A Python \<open>str\<close> is modelled as a \<open>string\<close>; a \<open>char\<close> stands for the code point of the
  same number, so the model covers the texts whose code points lie below 256. On these
  code points \<open>\d\<close> matches exactly the ten ASCII digits, and \<open>str.isspace\<close> holds for the
  twelve characters listed in \<open>py_isspace\<close>.
\<close>

abbreviation NL :: char where
  "NL \<equiv> CHR 0x0A"

definition is_digit :: "char \<Rightarrow> bool" where
  "is_digit c = (c \<in> set ''0123456789'')"

definition is_ascii_letter :: "char \<Rightarrow> bool" where
  "is_ascii_letter c =
     (c \<in> set ''abcdefghijklmnopqrstuvwxyzABCDEFGHIJKLMNOPQRSTUVWXYZ'')"

definition py_isspace :: "char \<Rightarrow> bool" where
  "py_isspace c =
     (c \<in> set [CHR 0x09, CHR 0x0A, CHR 0x0B, CHR 0x0C, CHR 0x0D, CHR 0x1C, CHR 0x1D,
               CHR 0x1E, CHR 0x1F, CHR 0x20, CHR 0x85, CHR 0xA0])"

text \<open>\<open>s.strip()\<close>: leading and trailing whitespace removed.\<close>

definition strip :: "string \<Rightarrow> string" where
  "strip s = rev (dropWhile py_isspace (rev (dropWhile py_isspace s)))"

text \<open>\<open>s.lower()\<close> on code points below 256.\<close>

definition lower_char :: "char \<Rightarrow> char" where
  "lower_char c =
     (let n = (of_char c :: nat)
      in if (65 \<le> n \<and> n \<le> 90) \<or> (192 \<le> n \<and> n \<le> 222 \<and> n \<noteq> 215)
         then char_of (n + 32) else c)"

definition lower :: "string \<Rightarrow> string" where
  "lower s = map lower_char s"

text \<open>\<open>str(n)\<close> for an integer: decimal digits, no leading zero.\<close>

definition digit_char :: "nat \<Rightarrow> char" where
  "digit_char d = char_of (48 + d)"

function str_nat :: "nat \<Rightarrow> string" where
  "str_nat n = (if n < 10 then [digit_char n] else str_nat (n div 10) @ [digit_char (n mod 10)])"
  by pat_completeness auto
termination
  by (relation "measure id") auto

declare str_nat.simps [simp del]

definition str_int :: "int \<Rightarrow> string" where
  "str_int i = (if i < 0 then ''-'' @ str_nat (nat (- i)) else str_nat (nat i))"

text \<open>
  \<open>s.replace(old, new)\<close>: every occurrence of \<open>old\<close>, found from the left without
  overlap, becomes \<open>new\<close>. For an empty \<open>old\<close> Python inserts \<open>new\<close> before every character
  and at the end.
\<close>

function replace_from :: "string \<Rightarrow> string \<Rightarrow> string \<Rightarrow> string" where
  "replace_from old new [] = []"
| "replace_from old new (c # cs) =
     (if old \<noteq> [] \<and> prefix old (c # cs)
      then new @ replace_from old new (drop (length old) (c # cs))
      else c # replace_from old new cs)"
  by pat_completeness auto
termination
  by (relation "measure (\<lambda>(old, new, s). length s)") auto

definition replace :: "string \<Rightarrow> string \<Rightarrow> string \<Rightarrow> string" where
  "replace old new s =
     (if old = [] then new @ concat (map (\<lambda>c. c # new) s) else replace_from old new s)"

section \<open>The regular expressions of the source\<close>

text \<open>
  Each pattern of the source is translated into a matcher that tells whether the pattern
  matches at the start of a string and what is left after the match; \<open>re.findall\<close> and
  \<open>re.sub\<close> scan from the left, take the first position where the pattern matches and go on
  behind the match. No pattern of the source matches the empty string.
\<close>

datatype atom = Digit | Lit char

fun atom_matches :: "atom \<Rightarrow> char \<Rightarrow> bool" where
  "atom_matches Digit c = is_digit c"
| "atom_matches (Lit l) c = (c = l)"

text \<open>A pattern that is a fixed sequence of atoms matches at the start of a string.\<close>

fun matches_at :: "atom list \<Rightarrow> string \<Rightarrow> bool" where
  "matches_at [] s = True"
| "matches_at (a # as) [] = False"
| "matches_at (a # as) (c # cs) = (atom_matches a c \<and> matches_at as cs)"

text \<open>\<^verbatim>\<open>\d{2}:\d{2}:\d{2},\d{3}\<close>\<close>

definition timecode_pattern :: "atom list" where
  "timecode_pattern =
     [Digit, Digit, Lit (CHR '':''), Digit, Digit, Lit (CHR '':''), Digit, Digit,
      Lit (CHR '',''), Digit, Digit, Digit]"

text \<open>\<^verbatim>\<open>\d{2}:\d{2}:\d{2},\d{3} --> \d{2}:\d{2}:\d{2},\d{3}\<close>\<close>

definition timerange_pattern :: "atom list" where
  "timerange_pattern = timecode_pattern @ map Lit '' --> '' @ timecode_pattern"

text \<open>\<open>re.findall(timecode_pattern, text)\<close>: the matched substrings, in order.\<close>

function findall_timecodes :: "string \<Rightarrow> string list" where
  "findall_timecodes [] = []"
| "findall_timecodes (c # cs) =
     (if matches_at timecode_pattern (c # cs)
      then take 12 (c # cs) # findall_timecodes (drop 12 (c # cs))
      else findall_timecodes cs)"
  by pat_completeness auto
termination
  by (relation "measure length") auto

text \<open>
  \<^verbatim>\<open><([^>]+)>\<close> at the start of a string: the group and the rest. The greedy class takes
  every character up to the next \<open>>\<close>; giving characters back cannot help, since the
  character after a shorter run is not \<open>>\<close>.
\<close>

definition match_tag :: "string \<Rightarrow> (string \<times> string) option" where
  "match_tag s =
     (case s of
        [] \<Rightarrow> None
      | c # cs \<Rightarrow>
          if c \<noteq> CHR ''<'' then None
          else (let body = takeWhile (\<lambda>x. x \<noteq> CHR ''>'') cs;
                    rest = dropWhile (\<lambda>x. x \<noteq> CHR ''>'') cs
                in if body = [] \<or> rest = [] then None else Some (body, tl rest)))"

lemma match_tag_shorter: "match_tag s = Some (body, rest) \<Longrightarrow> length rest < length s"
proof (cases s)
  case Nil
  then show "match_tag s = Some (body, rest) \<Longrightarrow> ?thesis" by (simp add: match_tag_def)
next
  case (Cons c cs)
  have "length (dropWhile (\<lambda>x. x \<noteq> CHR ''>'') cs) \<le> length cs"
    by (rule length_dropWhile_le)
  then show "match_tag s = Some (body, rest) \<Longrightarrow> ?thesis"
    using Cons by (auto simp: match_tag_def Let_def split: if_splits)
qed

text \<open>\<open>re.findall(tag_pattern, text)\<close>: group 1 of every match, in order.\<close>

function findall_tags :: "string \<Rightarrow> string list" where
  "findall_tags [] = []"
| "findall_tags (c # cs) =
     (case match_tag (c # cs) of
        Some (body, rest) \<Rightarrow> body # findall_tags rest
      | None \<Rightarrow> findall_tags cs)"
  by pat_completeness auto
termination
  by (relation "measure length") (auto dest: match_tag_shorter)

text \<open>The lookahead \<^verbatim>\<open>(?=\n\n|$)\<close>; \<open>$\<close> holds at the end and before a final newline.\<close>

definition at_end :: "string \<Rightarrow> bool" where
  "at_end s = (s = [] \<or> s = ''\<newline>'')"

definition at_block_end :: "string \<Rightarrow> bool" where
  "at_block_end s = (prefix ''\<newline>\<newline>'' s \<or> at_end s)"

text \<open>\<^verbatim>\<open>([\s\S]*?)(?=\n\n|$)\<close>: the shortest run after which the lookahead holds, and the rest.\<close>

fun lazy_text :: "string \<Rightarrow> string \<times> string" where
  "lazy_text [] = ([], [])"
| "lazy_text (c # cs) =
     (if at_block_end (c # cs) then ([], c # cs)
      else (case lazy_text cs of (t, rest) \<Rightarrow> (c # t, rest)))"

text \<open>
  The block pattern
  \<^verbatim>\<open>(\d+)\n(\d{2}:\d{2}:\d{2},\d{3} --> \d{2}:\d{2}:\d{2},\d{3})\n([\s\S]*?)(?=\n\n|$)\<close>
  at the start of a string: the three groups and the rest. The greedy \<^verbatim>\<open>\d+\<close> takes the
  whole run of digits; a shorter run is followed by a digit, not by the newline.
\<close>

definition after_newline :: "string \<Rightarrow> string option" where
  "after_newline s = (case s of [] \<Rightarrow> None | c # cs \<Rightarrow> if c = NL then Some cs else None)"

definition match_block :: "string \<Rightarrow> ((string \<times> string \<times> string) \<times> string) option" where
  "match_block s =
     (let index = takeWhile is_digit s
      in if index = [] then None
         else (case after_newline (dropWhile is_digit s) of
                 None \<Rightarrow> None
               | Some s2 \<Rightarrow>
                   if \<not> matches_at timerange_pattern s2 then None
                   else (case after_newline (drop 29 s2) of
                           None \<Rightarrow> None
                         | Some s3 \<Rightarrow>
                             (case lazy_text s3 of
                                (text, rest) \<Rightarrow> Some ((index, take 29 s2, text), rest)))))"

lemma after_newline_Some: "after_newline s = Some r \<longleftrightarrow> s = NL # r"
  by (cases s) (auto simp: after_newline_def)

lemma lazy_text_shorter: "length (snd (lazy_text s)) \<le> length s"
  by (induction s) (auto split: prod.splits)

lemma match_block_parts:
  assumes "match_block s = Some (g, rest)"
  shows "\<exists>s2 s3. dropWhile is_digit s = NL # s2 \<and> drop 29 s2 = NL # s3 \<and>
           rest = snd (lazy_text s3)"
  using assms
  by (auto simp: match_block_def Let_def after_newline_Some
      split: if_splits option.splits prod.splits)

lemma match_block_shorter:
  assumes "match_block s = Some (g, rest)"
  shows "length rest < length s"
proof -
  from match_block_parts[OF assms] obtain s2 s3 where
    s2: "dropWhile is_digit s = NL # s2" and s3: "drop 29 s2 = NL # s3"
    and r: "rest = snd (lazy_text s3)" by blast
  have "length (dropWhile is_digit s) \<le> length s" by (rule length_dropWhile_le)
  then have a: "length s2 < length s" using s2 by simp
  have "length (drop 29 s2) \<le> length s2" by simp
  then have b: "length s3 < length s2" unfolding s3 by simp
  have "length rest \<le> length s3" using r lazy_text_shorter[of s3] by simp
  with a b show ?thesis by simp
qed

text \<open>\<open>re.findall(pattern, content)\<close> for the block pattern: the group triples, in order.\<close>

function findall_blocks :: "string \<Rightarrow> (string \<times> string \<times> string) list" where
  "findall_blocks s =
     (case match_block s of
        Some (g, rest) \<Rightarrow> g # findall_blocks rest
      | None \<Rightarrow> (case s of [] \<Rightarrow> [] | c # cs \<Rightarrow> findall_blocks cs))"
  by pat_completeness auto
termination
  by (relation "measure length") (auto dest: match_block_shorter)

declare findall_blocks.simps [simp del]

text \<open>
  \<^verbatim>\<open>\.[a-z]{2,3}(-[a-zA-Z]{2,3})?$\<close> with \<open>re.IGNORECASE\<close>. A quantified part gives the
  strings that can be left after it, in the order in which the backtracking matcher tries
  them: three letters before two, the optional group before its absence.
\<close>

definition letters_2_3 :: "string \<Rightarrow> string list" where
  "letters_2_3 s =
     (if 3 \<le> length s \<and> list_all is_ascii_letter (take 3 s) then [drop 3 s] else []) @
     (if 2 \<le> length s \<and> list_all is_ascii_letter (take 2 s) then [drop 2 s] else [])"

definition optional_region :: "string \<Rightarrow> string list" where
  "optional_region s =
     (case s of [] \<Rightarrow> [] | c # cs \<Rightarrow> if c = CHR ''-'' then letters_2_3 cs else []) @ [s]"

definition match_lang_code :: "string \<Rightarrow> string option" where
  "match_lang_code s =
     (case s of
        [] \<Rightarrow> None
      | c # cs \<Rightarrow>
          if c \<noteq> CHR ''.'' then None
          else find at_end (concat (map optional_region (letters_2_3 cs))))"

text \<open>\<open>re.sub(pattern, '', stem)\<close> for this pattern; what is left behind a match is at most a newline.\<close>

fun sub_lang_code :: "string \<Rightarrow> string" where
  "sub_lang_code [] = []"
| "sub_lang_code (c # cs) =
     (case match_lang_code (c # cs) of
        Some rest \<Rightarrow> rest
      | None \<Rightarrow> c # sub_lang_code cs)"

section \<open>Subtitle codec\<close>

type_synonym block = "string \<times> string \<times> string"

definition parse_srt :: "string \<Rightarrow> block list" where
  "parse_srt content = map (\<lambda>(index, timecode, text). (index, timecode, strip text)) (findall_blocks content)"

text \<open>What \<open>save_srt\<close> writes for one block, and for the blocks of a file.\<close>

definition block_text :: "block \<Rightarrow> string" where
  "block_text b =
     (case b of (index, timecode, text) \<Rightarrow>
        index @ ''\<newline>'' @ timecode @ ''\<newline>'' @ text @ ''\<newline>\<newline>'')"

definition srt_text :: "block list \<Rightarrow> string" where
  "srt_text blocks = concat (map block_text blocks)"

section \<open>Placeholder protector\<close>

text \<open>
  The dictionary \<open>replacements\<close> keeps its keys in insertion order, and assigning to a key
  it has keeps the key's place: an association list under \<open>AList.update\<close>.
\<close>

definition time_placeholder :: "nat \<Rightarrow> string" where
  "time_placeholder idx = ''<TIME_'' @ str_nat idx @ ''>''"

definition tag_placeholder :: "nat \<Rightarrow> string \<Rightarrow> string" where
  "tag_placeholder idx full_tag =
     (if prefix ''</'' full_tag then ''<ETAG_'' @ str_nat idx @ ''>''
      else ''<BTAG_'' @ str_nat idx @ ''>'')"

fun protect_timecodes ::
  "nat \<Rightarrow> string list \<Rightarrow> string \<times> (string \<times> string) list \<Rightarrow> string \<times> (string \<times> string) list" where
  "protect_timecodes idx [] (protected_text, replacements) = (protected_text, replacements)"
| "protect_timecodes idx (tc # tcs) (protected_text, replacements) =
     protect_timecodes (Suc idx) tcs
       (replace tc (time_placeholder idx) protected_text,
        AList.update (time_placeholder idx) tc replacements)"

fun protect_tags ::
  "nat \<Rightarrow> string list \<Rightarrow> string \<times> (string \<times> string) list \<Rightarrow> string \<times> (string \<times> string) list" where
  "protect_tags idx [] (protected_text, replacements) = (protected_text, replacements)"
| "protect_tags idx (tag # tags) (protected_text, replacements) =
     (let full_tag = ''<'' @ tag @ ''>''
      in protect_tags (Suc idx) tags
           (replace full_tag (tag_placeholder idx full_tag) protected_text,
            AList.update (tag_placeholder idx full_tag) full_tag replacements))"

definition protect_content :: "string \<Rightarrow> string \<times> (string \<times> string) list" where
  "protect_content text =
     protect_tags 0 (findall_tags text)
       (protect_timecodes 0 (findall_timecodes text) (text, []))"

fun restore_content :: "string \<Rightarrow> (string \<times> string) list \<Rightarrow> string" where
  "restore_content text [] = text"
| "restore_content text ((placeholder, original) # replacements) =
     restore_content (replace placeholder original text) replacements"

section \<open>The job, the environment and the worker's state\<close>

text \<open>
  The constructor stores whatever it is given as \<open>files\<close>; \<open>run\<close> calls \<open>len\<close> on it. A
  list of paths is \<open>FileList\<close>; \<open>PyNone\<close> is the value \<open>None\<close>, on which \<open>len\<close> raises
  \<open>TypeError\<close>.
\<close>

datatype files_arg = FileList "string list" | PyNone

record job =
  files :: files_arg
  target_lang :: string
  style :: string
  model :: string
  advanced_prompt :: string
  base_url :: string

text \<open>The JSON body of one POST; \<open>stream\<close> and the temperature are constants of the source.\<close>

record request =
  req_url :: string
  req_model :: string
  req_system :: string
  req_user :: string

text \<open>
  What \<open>requests.post\<close> gives back: a response with its status code, its text, and what
  \<open>response.json()['message']['content']\<close> evaluates to (\<open>Inl\<close>: it raises, with
  \<open>str(e)\<close>; \<open>Inr\<close>: the reply text); or an exception raised by the call, with \<open>str(e)\<close>.
\<close>

datatype response =
    HttpResponse int string "string + string"
  | RequestException string

datatype event =
    LogMessage string
  | Progress nat nat
  | ErrorSignal string
  | Finished
  | Post request
  | Sleep nat
  | IsCancelled bool
  | WriteFile string string

text \<open>
  The environment of one run: the endpoint answers the \<open>n\<close>-th POST of the run with
  \<open>respond n\<close>; \<open>cancel()\<close>, which only ever sets the flag, takes effect before the
  \<open>k\<close>-th read of the flag when \<open>cancel_at = Some k\<close>, and is never called when it is
  \<open>None\<close>.
\<close>

record env =
  respond :: "nat \<Rightarrow> request \<Rightarrow> response"
  cancel_at :: "nat option"

text \<open>
  The state: the text files the worker can open (path to content, as Python's text mode
  reads and writes it) and everything the worker has done so far, in order.
\<close>

record state =
  fs :: "string \<rightharpoonup> string"
  trace :: "event list"

definition emit :: "event \<Rightarrow> state \<Rightarrow> state" where
  "emit e s = s\<lparr>trace := trace s @ [e]\<rparr>"

definition is_post :: "event \<Rightarrow> bool" where
  "is_post e = (case e of Post r \<Rightarrow> True | _ \<Rightarrow> False)"

definition is_check :: "event \<Rightarrow> bool" where
  "is_check e = (case e of IsCancelled b \<Rightarrow> True | _ \<Rightarrow> False)"

definition posts :: "state \<Rightarrow> nat" where
  "posts s = length (filter is_post (trace s))"

definition checks :: "state \<Rightarrow> nat" where
  "checks s = length (filter is_check (trace s))"

definition is_cancelled :: "env \<Rightarrow> state \<Rightarrow> bool \<times> state" where
  "is_cancelled ev s =
     (let b = (case cancel_at ev of None \<Rightarrow> False | Some k \<Rightarrow> k \<le> checks s)
      in (b, emit (IsCancelled b) s))"

section \<open>Prompt builder\<close>

definition style_desc :: "string \<Rightarrow> string" where
  "style_desc st =
     (if st = ''Natural (recommended)'' then ''natural''
      else if st = ''Formal'' then ''formal''
      else if st = ''Simple clear'' then ''simple and clear''
      else ''natural'')"

definition constructed_prompt :: "job \<Rightarrow> string" where
  "constructed_prompt j =
     ''Translate the following text from English into '' @ target_lang j @ ''.\<newline>'' @
     ''Use '' @ style_desc (style j) @ '' style. Important:\<newline>'' @
     ''Only translate the USER text.\<newline>'' @
     ''Keep placeholders like <BTAG_0>, <ETAG_0>, <TIME_0> unchanged.\<newline>'' @
     ''Never translate content inside placeholders.\<newline>'' @
     ''Do NOT add explanations or commentary.\<newline>'' @
     ''Answer with the translated text only.''"

definition generate_system_prompt :: "job \<Rightarrow> string \<Rightarrow> string" where
  "generate_system_prompt j protected_text =
     (if strip (advanced_prompt j) \<noteq> [] then advanced_prompt j else constructed_prompt j)"

section \<open>Translation client\<close>

definition RETRY_COUNT :: nat where
  "RETRY_COUNT = 2"

definition RETRY_DELAY :: nat where
  "RETRY_DELAY = 5"

definition attempt_tag :: "nat \<Rightarrow> string" where
  "attempt_tag attempt =
     ''(attempt '' @ str_nat (attempt + 1) @ ''/'' @ str_nat (RETRY_COUNT + 1) @ ''): ''"

text \<open>
  One pass of the body of \<open>for attempt in range(RETRY_COUNT + 1)\<close>: \<open>Inr\<close> is the
  \<open>return\<close> inside the loop, \<open>Inl\<close> the message logged by the failed attempt.
\<close>

definition attempt_outcome :: "nat \<Rightarrow> response \<Rightarrow> string + string" where
  "attempt_outcome attempt r =
     (case r of
        HttpResponse code txt body \<Rightarrow>
          if code = 200 then
            (case body of
               Inr content \<Rightarrow> Inr content
             | Inl e \<Rightarrow> Inl (''Network error '' @ attempt_tag attempt @ e))
          else Inl (''API error '' @ attempt_tag attempt @ str_int code @ '' - '' @ txt)
      | RequestException e \<Rightarrow> Inl (''Network error '' @ attempt_tag attempt @ e))"

fun translate_attempts :: "env \<Rightarrow> request \<Rightarrow> nat \<Rightarrow> nat \<Rightarrow> state \<Rightarrow> string option \<times> state" where
  "translate_attempts ev rq attempt 0 s = (None, s)"
| "translate_attempts ev rq attempt (Suc left) s =
     (let r = respond ev (posts s) rq;
          s1 = emit (Post rq) s
      in case attempt_outcome attempt r of
           Inr content \<Rightarrow> (Some content, s1)
         | Inl msg \<Rightarrow>
             (let s2 = emit (LogMessage msg) s1;
                  s3 = (if attempt < RETRY_COUNT then emit (Sleep RETRY_DELAY) s2 else s2)
              in translate_attempts ev rq (attempt + 1) left s3))"

definition payload :: "job \<Rightarrow> string \<Rightarrow> string \<Rightarrow> request" where
  "payload j system_prompt text =
     \<lparr>req_url = base_url j, req_model = model j, req_system = system_prompt, req_user = text\<rparr>"

definition translate_text :: "env \<Rightarrow> job \<Rightarrow> string \<Rightarrow> string \<Rightarrow> state \<Rightarrow> string option \<times> state" where
  "translate_text ev j system_prompt text s =
     translate_attempts ev (payload j system_prompt text) 0 (RETRY_COUNT + 1) s"

section \<open>Batch driver\<close>

text \<open>
  A path is modelled by the string \<open>pathlib\<close> prints for it. The worker gets its paths from
  the file dialog and from joining the directories of \<open>os.walk\<close> with file names: POSIX
  paths without empty or dot components and without a trailing slash, for which this is the
  path string itself. \<open>name\<close> is what follows the last slash, \<open>parent\<close> what precedes it;
  \<open>suffix\<close> starts at the last dot of the name, unless that dot is its first or its last
  character; \<open>stem\<close> is the name without the suffix.
\<close>

definition path_name :: "string \<Rightarrow> string" where
  "path_name p = rev (takeWhile (\<lambda>c. c \<noteq> CHR ''/'') (rev p))"

definition path_parent :: "string \<Rightarrow> string" where
  "path_parent p =
     (let d = rev (dropWhile (\<lambda>c. c \<noteq> CHR ''/'') (rev p))
      in if d = [] then ''.'' else if d = ''/'' then ''/'' else butlast d)"

definition path_suffix :: "string \<Rightarrow> string" where
  "path_suffix name =
     (if CHR ''.'' \<notin> set name then []
      else (let i = length name - length (takeWhile (\<lambda>c. c \<noteq> CHR ''.'') (rev name)) - 1
            in if 0 < i \<and> i < length name - 1 then drop i name else []))"

definition path_stem :: "string \<Rightarrow> string" where
  "path_stem name = take (length name - length (path_suffix name)) name"

text \<open>\<open>parent / name\<close> for a name that is a single component.\<close>

definition path_join :: "string \<Rightarrow> string \<Rightarrow> string" where
  "path_join parent name =
     (if parent = ''.'' then name
      else if parent = ''/'' then ''/'' @ name
      else parent @ ''/'' @ name)"

definition get_target_path :: "job \<Rightarrow> string \<Rightarrow> string" where
  "get_target_path j file_path =
     (let stem = sub_lang_code (path_stem (path_name file_path))
      in path_join (path_parent file_path)
           (stem @ ''.'' @ target_lang j @ path_suffix (path_name file_path)))"

text \<open>\<open>open(path, 'w')\<close> and the writes of \<open>save_srt\<close>: the file holds the blocks' text.\<close>

definition save_srt :: "string \<Rightarrow> block list \<Rightarrow> state \<Rightarrow> state" where
  "save_srt path blocks s =
     emit (WriteFile path (srt_text blocks)) (s\<lparr>fs := (fs s)(path \<mapsto> srt_text blocks)\<rparr>)"

text \<open>
  The body of the loop over the blocks, behind the cancellation check: the block that is
  appended to \<open>translated_blocks\<close>. \<open>not translated_text\<close> holds for \<open>None\<close> and for the
  empty string.
\<close>

definition translate_block :: "env \<Rightarrow> job \<Rightarrow> nat \<Rightarrow> nat \<Rightarrow> block \<Rightarrow> state \<Rightarrow> block \<times> state" where
  "translate_block ev j n block_idx b s =
     (case b of (index, timecode, text) \<Rightarrow>
        (let s1 = emit (LogMessage (''Translating block '' @ str_nat (block_idx + 1) @ ''/'' @
                          str_nat n)) s
         in case protect_content text of (protected_text, replacements) \<Rightarrow>
              (let system_prompt = generate_system_prompt j protected_text
               in case translate_text ev j system_prompt protected_text s1 of
                    (translated_text, s2) \<Rightarrow>
                      (let failed =
                             ((index, timecode, text),
                              emit (LogMessage ''Skipping block due to translation failure'') s2)
                       in case translated_text of
                            None \<Rightarrow> failed
                          | Some translated \<Rightarrow>
                              if translated = [] then failed
                              else ((index, timecode, restore_content translated replacements),
                                    s2)))))"

text \<open>
  \<open>for block_idx, block in enumerate(blocks)\<close>: \<open>None\<close> is the \<open>return\<close> at the
  cancellation check, \<open>Some\<close> the list \<open>translated_blocks\<close> at the end of the loop.
\<close>

fun translate_blocks ::
  "env \<Rightarrow> job \<Rightarrow> nat \<Rightarrow> nat \<Rightarrow> block list \<Rightarrow> block list \<Rightarrow> state \<Rightarrow> block list option \<times> state" where
  "translate_blocks ev j n block_idx [] translated_blocks s = (Some translated_blocks, s)"
| "translate_blocks ev j n block_idx (b # bs) translated_blocks s =
     (case is_cancelled ev s of
        (c, s1) \<Rightarrow>
          if c then (None, s1)
          else (case translate_block ev j n block_idx b s1 of
                  (b', s2) \<Rightarrow>
                    translate_blocks ev j n (Suc block_idx) bs (translated_blocks @ [b']) s2))"

text \<open>
  \<open>process_file\<close>: \<open>Inl\<close> is an exception that leaves the function, with \<open>str(e)\<close>, here
  the failure to open a file that is not there; \<open>Inr\<close> is a return.
\<close>

definition no_such_file :: "string \<Rightarrow> string" where
  "no_such_file path =
     ''[Errno 2] No such file or directory: '' @ [CHR 0x27] @ path @ [CHR 0x27]"

definition process_file :: "env \<Rightarrow> job \<Rightarrow> string \<Rightarrow> state \<Rightarrow> (string + unit) \<times> state" where
  "process_file ev j file_path s =
     (let target_path = get_target_path j file_path
      in if target_path \<in> dom (fs s)
         then (Inr (), emit (LogMessage (''Skipping '' @ file_path @ '' - target already exists'')) s)
         else if sublist (''.'' @ target_lang j @ ''.'') (lower file_path)
         then (Inr (), emit (LogMessage (''Skipping '' @ file_path @
                               '' - already has target language code'')) s)
         else (case fs s file_path of
                 None \<Rightarrow> (Inl (no_such_file file_path), s)
               | Some content \<Rightarrow>
                   (let blocks = parse_srt content
                    in if blocks = []
                       then (Inr (), emit (LogMessage (''No valid blocks found in '' @ file_path)) s)
                       else (case translate_blocks ev j (length blocks) 0 blocks [] s of
                               (None, s1) \<Rightarrow> (Inr (), s1)
                             | (Some translated_blocks, s1) \<Rightarrow>
                                 (Inr (),
                                  emit (LogMessage (''Saved translated file: '' @ target_path))
                                    (save_srt target_path translated_blocks s1))))))"

text \<open>
  \<open>for idx, file_path in enumerate(self.files)\<close> in \<open>run\<close>, with its two \<open>break\<close>s and its
  guard around \<open>process_file\<close>.
\<close>

fun run_files :: "env \<Rightarrow> job \<Rightarrow> nat \<Rightarrow> nat \<Rightarrow> string list \<Rightarrow> state \<Rightarrow> state" where
  "run_files ev j total_files idx [] s = s"
| "run_files ev j total_files idx (file_path # rest) s =
     (case is_cancelled ev s of
        (c, s1) \<Rightarrow>
          if c then emit (LogMessage ''Translation cancelled by user'') s1
          else (let s2 = emit (LogMessage (''Processing file: '' @ file_path)) s1;
                    s3 = emit (Progress idx total_files) s2
                in case process_file ev j file_path s3 of
                     (r, s4) \<Rightarrow>
                       (let s5 = (case r of
                                    Inl e \<Rightarrow>
                                      emit (LogMessage (''Error processing '' @ file_path @ '': '' @ e)) s4
                                  | Inr u \<Rightarrow> s4)
                        in case is_cancelled ev s5 of
                             (c2, s6) \<Rightarrow>
                               if c2 then s6
                               else run_files ev j total_files (Suc idx) rest s6)))"

text \<open>
  \<open>run\<close>. With \<open>files = None\<close> the call \<open>len(self.files)\<close> raises inside the outer \<open>try\<close>:
  the handler emits the error signal, and \<open>finally\<close> emits \<open>finished\<close>.
\<close>

definition none_has_no_len :: string where
  "none_has_no_len = ''object of type '' @ [CHR 0x27] @ ''NoneType'' @ [CHR 0x27] @ '' has no len()''"

definition run :: "env \<Rightarrow> job \<Rightarrow> state \<Rightarrow> state" where
  "run ev j s =
     emit Finished
       (case files j of
          PyNone \<Rightarrow> emit (ErrorSignal (''Critical error: '' @ none_has_no_len)) s
        | FileList fl \<Rightarrow>
            (let total_files = length fl;
                 s1 = run_files ev j total_files 0 fl s;
                 s2 = emit (Progress total_files total_files) s1
             in case is_cancelled ev s2 of
                  (c, s3) \<Rightarrow>
                    if \<not> c then emit (LogMessage ''Translation completed successfully!'') s3
                    else s3))"

section \<open>A sample job and environment\<close>

definition demo_job :: job where
  "demo_job = \<lparr>files = FileList [''movie.srt''], target_lang = ''de'', style = ''Formal'',
               model = ''llama3'', advanced_prompt = '' \<newline>'', base_url = ''http://localhost:11434/api/chat''\<rparr>"

definition failing_env :: env where
  "failing_env =
     \<lparr>respond = (\<lambda>n rq. HttpResponse 503 ''Service Unavailable'' (Inl ''no body'')),
      cancel_at = None\<rparr>"

definition empty_state :: state where
  "empty_state = \<lparr>fs = Map.empty, trace = []\<rparr>"

section \<open>The prompt builder's instruction\<close>

lemma sublist_between: "ys = ps @ xs @ ss \<Longrightarrow> sublist xs ys"
  by (auto simp: sublist_def)

lemma prompt_names_language:
  "sublist (''from English into '' @ target_lang j @ ''.'') (constructed_prompt j)"
  by (rule sublist_between[where ps = "''Translate the following text ''"])
     (simp add: constructed_prompt_def)

lemma prompt_names_style:
  "sublist (''Use '' @ style_desc (style j) @ '' style.'') (constructed_prompt j)"
  by (rule sublist_between[where
        ps = "''Translate the following text from English into '' @ target_lang j @ ''.\<newline>''"])
     (simp add: constructed_prompt_def)

lemma prompt_only_user_text:
  "sublist ''Only translate the USER text.'' (constructed_prompt j)"
  by (rule sublist_between[where
        ps = "''Translate the following text from English into '' @ target_lang j @ ''.\<newline>'' @
              ''Use '' @ style_desc (style j) @ '' style. Important:\<newline>''"])
     (simp add: constructed_prompt_def)

lemma prompt_keep_placeholders:
  "sublist ''Keep placeholders like <BTAG_0>, <ETAG_0>, <TIME_0> unchanged.''
     (constructed_prompt j)"
  by (rule sublist_between[where
        ps = "''Translate the following text from English into '' @ target_lang j @ ''.\<newline>'' @
              ''Use '' @ style_desc (style j) @ '' style. Important:\<newline>'' @
              ''Only translate the USER text.\<newline>''"])
     (simp add: constructed_prompt_def)

lemma prompt_never_translate_placeholders:
  "sublist ''Never translate content inside placeholders.'' (constructed_prompt j)"
  by (rule sublist_between[where
        ps = "''Translate the following text from English into '' @ target_lang j @ ''.\<newline>'' @
              ''Use '' @ style_desc (style j) @ '' style. Important:\<newline>'' @
              ''Only translate the USER text.\<newline>'' @
              ''Keep placeholders like <BTAG_0>, <ETAG_0>, <TIME_0> unchanged.\<newline>''"])
     (simp add: constructed_prompt_def)

lemma prompt_text_only:
  "sublist ''Do NOT add explanations or commentary.\<newline>Answer with the translated text only.''
     (constructed_prompt j)"
  by (rule sublist_between[where ss = "[]" and
        ps = "''Translate the following text from English into '' @ target_lang j @ ''.\<newline>'' @
              ''Use '' @ style_desc (style j) @ '' style. Important:\<newline>'' @
              ''Only translate the USER text.\<newline>'' @
              ''Keep placeholders like <BTAG_0>, <ETAG_0>, <TIME_0> unchanged.\<newline>'' @
              ''Never translate content inside placeholders.\<newline>''"])
     (simp add: constructed_prompt_def)

text \<open>
  C9. A prompt override that is not blank after trimming is the system instruction, untrimmed.
  Otherwise the instruction names the job's target language and the style descriptor, and
  states the invariants: translate only the user text, keep the placeholders, never translate
  inside placeholders, answer with the translated text only and no commentary. The three
  styles map to \<open>natural\<close>, \<open>formal\<close> and \<open>simple and clear\<close>, and no other descriptor is
  ever produced.
\<close>

theorem prompt_builder:
  "(strip (advanced_prompt j) \<noteq> [] \<longrightarrow> generate_system_prompt j p = advanced_prompt j) \<and>
   (strip (advanced_prompt j) = [] \<longrightarrow>
      sublist (''from English into '' @ target_lang j @ ''.'') (generate_system_prompt j p) \<and>
      sublist (''Use '' @ style_desc (style j) @ '' style.'') (generate_system_prompt j p) \<and>
      sublist ''Only translate the USER text.'' (generate_system_prompt j p) \<and>
      sublist ''Keep placeholders like <BTAG_0>, <ETAG_0>, <TIME_0> unchanged.''
        (generate_system_prompt j p) \<and>
      sublist ''Never translate content inside placeholders.'' (generate_system_prompt j p) \<and>
      sublist ''Do NOT add explanations or commentary.\<newline>Answer with the translated text only.''
        (generate_system_prompt j p)) \<and>
   style_desc ''Natural (recommended)'' = ''natural'' \<and>
   style_desc ''Formal'' = ''formal'' \<and>
   style_desc ''Simple clear'' = ''simple and clear'' \<and>
   style_desc (style j) \<in> {''natural'', ''formal'', ''simple and clear''}"
proof -
  have override: "strip (advanced_prompt j) \<noteq> [] \<longrightarrow> generate_system_prompt j p = advanced_prompt j"
    by (simp add: generate_system_prompt_def)
  have built: "strip (advanced_prompt j) = [] \<Longrightarrow> generate_system_prompt j p = constructed_prompt j"
    by (simp add: generate_system_prompt_def)
  have styles: "style_desc ''Natural (recommended)'' = ''natural'' \<and>
      style_desc ''Formal'' = ''formal'' \<and> style_desc ''Simple clear'' = ''simple and clear'' \<and>
      style_desc (style j) \<in> {''natural'', ''formal'', ''simple and clear''}"
    by (simp add: style_desc_def)
  have constructed: "strip (advanced_prompt j) = [] \<longrightarrow>
      sublist (''from English into '' @ target_lang j @ ''.'') (generate_system_prompt j p) \<and>
      sublist (''Use '' @ style_desc (style j) @ '' style.'') (generate_system_prompt j p) \<and>
      sublist ''Only translate the USER text.'' (generate_system_prompt j p) \<and>
      sublist ''Keep placeholders like <BTAG_0>, <ETAG_0>, <TIME_0> unchanged.''
        (generate_system_prompt j p) \<and>
      sublist ''Never translate content inside placeholders.'' (generate_system_prompt j p) \<and>
      sublist ''Do NOT add explanations or commentary.\<newline>Answer with the translated text only.''
        (generate_system_prompt j p)"
  proof
    assume e: "strip (advanced_prompt j) = []"
    show "sublist (''from English into '' @ target_lang j @ ''.'') (generate_system_prompt j p) \<and>
      sublist (''Use '' @ style_desc (style j) @ '' style.'') (generate_system_prompt j p) \<and>
      sublist ''Only translate the USER text.'' (generate_system_prompt j p) \<and>
      sublist ''Keep placeholders like <BTAG_0>, <ETAG_0>, <TIME_0> unchanged.''
        (generate_system_prompt j p) \<and>
      sublist ''Never translate content inside placeholders.'' (generate_system_prompt j p) \<and>
      sublist ''Do NOT add explanations or commentary.\<newline>Answer with the translated text only.''
        (generate_system_prompt j p)"
      unfolding built[OF e]
      by (intro conjI prompt_names_language prompt_names_style prompt_only_user_text
          prompt_keep_placeholders prompt_never_translate_placeholders prompt_text_only)
  qed
  from override constructed styles show ?thesis by blast
qed

theorem prompt_builder_witness:
  "generate_system_prompt (demo_job\<lparr>advanced_prompt := '' Translate to Klingon. ''\<rparr>) ''Hi'' =
     '' Translate to Klingon. '' \<and>
   sublist ''from English into de.'' (generate_system_prompt demo_job ''Hi'') \<and>
   sublist ''Use formal style.'' (generate_system_prompt demo_job ''Hi'')"
proof -
  have a: "strip (advanced_prompt (demo_job\<lparr>advanced_prompt := '' Translate to Klingon. ''\<rparr>)) \<noteq> []"
    by (simp add: strip_def py_isspace_def)
  have b: "strip (advanced_prompt demo_job) = []"
    by (simp add: demo_job_def strip_def py_isspace_def)
  have c: "target_lang demo_job = ''de''" "style_desc (style demo_job) = ''formal''"
    by (simp_all add: demo_job_def style_desc_def)
  show ?thesis
    using prompt_builder[of "demo_job\<lparr>advanced_prompt := '' Translate to Klingon. ''\<rparr>" "''Hi''"]
      prompt_builder[of demo_job "''Hi''"] a b c
    by simp
qed

section \<open>The retry budget of the translation client\<close>

definition attempt_fails :: "response \<Rightarrow> bool" where
  "attempt_fails r = (case r of HttpResponse code txt body \<Rightarrow> code \<noteq> 200 | RequestException e \<Rightarrow> True)"

lemma posts_emit: "posts (emit e s) = posts s + (if is_post e then 1 else 0)"
  by (simp add: posts_def emit_def)

lemma trace_emit: "trace (emit e s) = trace s @ [e]"
  by (simp add: emit_def)

lemma fs_emit: "fs (emit e s) = fs s"
  by (simp add: emit_def)

lemma attempt_fails_outcome:
  "attempt_fails r \<Longrightarrow> \<exists>m. attempt_outcome a r = Inl m"
  by (cases r) (auto simp: attempt_fails_def attempt_outcome_def)

lemma failed_attempt_step:
  assumes "attempt_fails (respond ev (posts s) rq)"
  shows "\<exists>m. translate_attempts ev rq a (Suc left) s =
           translate_attempts ev rq (a + 1) left
             (if a < RETRY_COUNT then emit (Sleep RETRY_DELAY) (emit (LogMessage m) (emit (Post rq) s))
              else emit (LogMessage m) (emit (Post rq) s))"
proof -
  from attempt_fails_outcome[OF assms] obtain m where "attempt_outcome a (respond ev (posts s) rq) = Inl m"
    by blast
  then show ?thesis by (auto simp: Let_def)
qed

text \<open>
  C3. When each of the three attempts of one translation call fails (a status other than 200,
  or an exception of the call), the client posts exactly three times, sleeps five seconds
  after the first and after the second attempt and not after the third, logs each failure,
  and returns no text.
\<close>

theorem retry_budget:
  assumes "\<forall>k<3. attempt_fails (respond ev (posts s + k) (payload j sp t))"
  shows "\<exists>m0 m1 m2. translate_text ev j sp t s =
           (None, s\<lparr>trace := trace s @
              [Post (payload j sp t), LogMessage m0, Sleep 5,
               Post (payload j sp t), LogMessage m1, Sleep 5,
               Post (payload j sp t), LogMessage m2]\<rparr>)"
proof -
  let ?rq = "payload j sp t"
  have f0: "attempt_fails (respond ev (posts s) ?rq)"
    using assms[rule_format, of 0] by simp
  have f1: "attempt_fails (respond ev (posts s + 1) ?rq)"
    using assms[rule_format, of 1] by simp
  have f2: "attempt_fails (respond ev (posts s + 2) ?rq)"
    using assms[rule_format, of 2] by simp
  from failed_attempt_step[OF f0, of 0 2] obtain m0 where
    s0: "translate_attempts ev ?rq 0 3 s = translate_attempts ev ?rq 1 2 (emit (Sleep 5) (emit (LogMessage m0) (emit (Post ?rq) s)))"
    by (auto simp: RETRY_COUNT_def RETRY_DELAY_def numeral_3_eq_3 numeral_2_eq_2)
  let ?s1 = "emit (Sleep 5) (emit (LogMessage m0) (emit (Post ?rq) s))"
  have p1: "posts ?s1 = posts s + 1" by (simp add: posts_emit is_post_def)
  from failed_attempt_step[of ev ?s1 ?rq 1 1] f1 p1 obtain m1 where
    s1: "translate_attempts ev ?rq 1 2 ?s1 = translate_attempts ev ?rq 2 1 (emit (Sleep 5) (emit (LogMessage m1) (emit (Post ?rq) ?s1)))"
    by (auto simp: RETRY_COUNT_def RETRY_DELAY_def numeral_2_eq_2)
  let ?s2 = "emit (Sleep 5) (emit (LogMessage m1) (emit (Post ?rq) ?s1))"
  have p2: "posts ?s2 = posts s + 2" by (simp add: posts_emit is_post_def)
  from failed_attempt_step[of ev ?s2 ?rq 2 0] f2 p2 obtain m2 where
    s2: "translate_attempts ev ?rq 2 1 ?s2 = translate_attempts ev ?rq 3 0 (emit (LogMessage m2) (emit (Post ?rq) ?s2))"
    by (auto simp: RETRY_COUNT_def RETRY_DELAY_def)
  have "translate_text ev j sp t s = (None, emit (LogMessage m2) (emit (Post ?rq) ?s2))"
    using s0 s1 s2 by (simp add: translate_text_def RETRY_COUNT_def)
  then show ?thesis by (auto simp: emit_def)
qed


theorem retry_budget_witness:
  "\<exists>m0 m1 m2. translate_text failing_env demo_job ''be brief'' ''Hello'' empty_state =
     (None, empty_state\<lparr>trace := trace empty_state @
        [Post (payload demo_job ''be brief'' ''Hello''), LogMessage m0, Sleep 5,
         Post (payload demo_job ''be brief'' ''Hello''), LogMessage m1, Sleep 5,
         Post (payload demo_job ''be brief'' ''Hello''), LogMessage m2]\<rparr>)"
proof -
  have "\<forall>k<3. attempt_fails
      (respond failing_env (posts empty_state + k) (payload demo_job ''be brief'' ''Hello''))"
    by (simp add: failing_env_def attempt_fails_def)
  then show ?thesis by (rule retry_budget)
qed

section \<open>Protection and restoration of placeholders\<close>

text \<open>
  The protected text is followed through the replacements as a sequence of segments: a
  character of the original text, or a placeholder together with the substring it stands
  for. Rendering a sequence writes each placeholder out, except those in a given set, which
  are written as their substrings; with every placeholder in the set it gives the original
  text back.
\<close>

lemma gt_split:
  "c \<notin> set X \<Longrightarrow> c \<notin> set Y \<Longrightarrow> prefix (X @ [c]) (Y @ c # r) \<Longrightarrow> X = Y"
proof (induction X arbitrary: Y)
  case Nil
  then show ?case by (cases Y) auto
next
  case (Cons x X)
  then show ?case by (cases Y) auto
qed

lemma replace_from_skip:
  assumes "\<And>u. u \<noteq> [] \<Longrightarrow> suffix u w \<Longrightarrow> \<not> prefix old (u @ r)"
  shows "replace_from old new (w @ r) = w @ replace_from old new r"
  using assms
proof (induction w)
  case Nil
  then show ?case by simp
next
  case (Cons c w)
  have "\<not> prefix old ((c # w) @ r)" using Cons.prems[of "c # w"] by simp
  moreover have "replace_from old new (w @ r) = w @ replace_from old new r"
    by (rule Cons.IH) (use Cons.prems in \<open>auto simp: suffix_Cons\<close>)
  ultimately show ?case by simp
qed

lemma replace_from_hit:
  "old \<noteq> [] \<Longrightarrow> replace_from old new (old @ r) = new @ replace_from old new r"
  by (cases old) simp_all

lemma sublist_behind: "sublist xs ys \<Longrightarrow> sublist xs (zs @ ys)"
  by (metis sublist_append)

datatype seg = Chr char | Tok string string

fun render :: "string set \<Rightarrow> seg list \<Rightarrow> string" where
  "render D [] = []"
| "render D (Chr c # segs) = c # render D segs"
| "render D (Tok ph orig # segs) = (if ph \<in> D then orig else ph) @ render D segs"

lemma render_append: "render D (xs @ ys) = render D xs @ render D ys"
  by (induction D xs rule: render.induct) auto

lemma render_chars: "render D (map Chr w) = w"
  by (induction w) auto

lemma render_cong:
  "(\<And>a b. Tok a b \<in> set segs \<Longrightarrow> (a \<in> D) = (a \<in> E)) \<Longrightarrow> render D segs = render E segs"
  by (induction D segs rule: render.induct) auto

definition token :: "string \<Rightarrow> bool" where
  "token ph \<longleftrightarrow>
     (\<exists>X. ph = CHR ''<'' # X @ ''>'' \<and> CHR ''<'' \<notin> set X \<and> CHR ''>'' \<notin> set X \<and> CHR '':'' \<notin> set X)"

definition plain :: "string \<Rightarrow> bool" where
  "plain w \<longleftrightarrow> CHR '':'' \<in> set w \<and> CHR ''<'' \<notin> set w \<and> CHR ''>'' \<notin> set w"

definition tagged :: "string \<Rightarrow> bool" where
  "tagged w \<longleftrightarrow> (\<exists>B. w = CHR ''<'' # B @ ''>'' \<and> CHR ''>'' \<notin> set B)"

definition piece :: "string \<Rightarrow> bool" where
  "piece w \<longleftrightarrow> plain w \<or> tagged w"

definition tail_ok :: "string \<Rightarrow> bool" where
  "tail_ok w \<longleftrightarrow>
     (CHR ''<'' \<notin> set w \<and> CHR ''>'' \<notin> set w) \<or>
     (w \<noteq> [] \<and> last w = CHR ''>'' \<and> CHR ''>'' \<notin> set (butlast w))"

lemma tail_ok_tl: "tail_ok (a # w) \<Longrightarrow> tail_ok w"
  by (cases w) (auto simp: tail_ok_def split: if_splits)

lemma piece_tail_ok: "piece w \<Longrightarrow> tail_ok w"
  by (auto simp: piece_def plain_def tagged_def tail_ok_def butlast_append)

lemma piece_nonempty: "piece w \<Longrightarrow> w \<noteq> []"
  by (auto simp: piece_def plain_def tagged_def)

lemma token_nonempty: "token ph \<Longrightarrow> ph \<noteq> []"
  by (auto simp: token_def)

lemma token_prefix_eq:
  assumes "token a" "token b" "prefix a (b @ r)"
  shows "a = b"
proof -
  from assms(1) obtain X where a: "a = CHR ''<'' # X @ ''>''" and X: "CHR ''>'' \<notin> set X"
    by (auto simp: token_def)
  from assms(2) obtain Y where b: "b = CHR ''<'' # Y @ ''>''" and Y: "CHR ''>'' \<notin> set Y"
    by (auto simp: token_def)
  from assms(3) have "prefix (X @ ''>'') (Y @ CHR ''>'' # r)" by (simp add: a b)
  from gt_split[OF X Y this] show ?thesis by (simp add: a b)
qed

lemma token_start_excl:
  assumes "token ph" "tail_ok w" "w \<noteq> []" "\<not> sublist ph w"
  shows "\<not> prefix w (ph @ r)"
proof
  assume p: "prefix w (ph @ r)"
  from assms(1) obtain X where ph: "ph = CHR ''<'' # X @ ''>''" and X: "CHR ''>'' \<notin> set X"
    by (auto simp: token_def)
  from p assms(3) have hd: "hd w = CHR ''<''" by (cases w) (auto simp: ph)
  with assms(3) have "CHR ''<'' \<in> set w" by (cases w) auto
  with assms(2) have l: "last w = CHR ''>''" and bl: "CHR ''>'' \<notin> set (butlast w)"
    by (auto simp: tail_ok_def)
  from l assms(3) have w': "w = butlast w @ ''>''" by (metis append_butlast_last_id)
  with hd have "butlast w \<noteq> []" by (cases "butlast w") auto
  with hd w' have "butlast w = CHR ''<'' # tl (butlast w)"
    by (cases "butlast w") (auto simp: hd_append)
  with w' obtain B where w: "w = CHR ''<'' # B @ ''>''" by (metis append_Cons)
  with bl have B: "CHR ''>'' \<notin> set B" by (simp add: butlast_append)
  from p have "prefix (B @ ''>'') (X @ CHR ''>'' # r)" by (simp add: w ph)
  from gt_split[OF B X this] have "w = ph" by (simp add: w ph)
  with assms(4) show False by simp
qed

lemma token_interior:
  assumes "token ph" "suffix u ph" "u \<noteq> []" "u \<noteq> ph" "piece w"
  shows "\<not> prefix w (u @ r)"
proof
  assume p: "prefix w (u @ r)"
  from assms(1) obtain X where ph: "ph = CHR ''<'' # X @ ''>''"
    and X: "CHR ''<'' \<notin> set X" "CHR ''>'' \<notin> set X" "CHR '':'' \<notin> set X"
    by (auto simp: token_def)
  from assms(2,4) have "suffix u (X @ ''>'')" by (auto simp: ph suffix_Cons)
  with assms(3) obtain X' where u: "u = X' @ ''>''" and X': "suffix X' X"
    by (auto simp: suffix_snoc)
  from X' have sub: "set X' \<subseteq> set X" by (rule set_mono_suffix)
  from assms(5) show False unfolding piece_def
  proof
    assume "tagged w"
    then obtain B where "w = CHR ''<'' # B @ ''>''" by (auto simp: tagged_def)
    with p u sub X show False by (cases X') auto
  next
    assume pl: "plain w"
    from p have "prefix w (X' @ CHR ''>'' # r)" by (simp add: u)
    then consider "prefix w X'" | us where "w = X' @ us" "prefix us (CHR ''>'' # r)"
      by (auto simp: prefix_append)
    then show False
    proof cases
      case 1
      then have "set w \<subseteq> set X'" by (rule set_mono_prefix)
      with sub X pl show False by (auto simp: plain_def)
    next
      case 2
      with pl sub X show False by (cases us) (auto simp: plain_def)
    qed
  qed
qed

lemma token_region_skip:
  assumes "token ph" "piece w" "\<not> sublist ph w"
  shows "replace_from w new (ph @ r) = ph @ replace_from w new r"
proof (rule replace_from_skip)
  fix u assume u: "u \<noteq> []" "suffix u ph"
  show "\<not> prefix w (u @ r)"
  proof (cases "u = ph")
    case True
    with token_start_excl[OF assms(1) piece_tail_ok[OF assms(2)] piece_nonempty[OF assms(2)] assms(3)]
    show ?thesis by simp
  next
    case False
    from token_interior[OF assms(1) u(2) u(1) False assms(2)] show ?thesis .
  qed
qed

lemma match_in_chars:
  assumes "tail_ok w" "\<And>a b. Tok a b \<in> set segs \<Longrightarrow> token a \<and> \<not> sublist a w"
    "prefix w (render {} segs)"
  shows "\<exists>rest. segs = map Chr w @ rest"
  using assms
proof (induction w arbitrary: segs)
  case Nil
  then show ?case by simp
next
  case (Cons c w)
  show ?case
  proof (cases segs)
    case Nil
    with Cons.prems(3) show ?thesis by simp
  next
    case (Cons sg rest)
    show ?thesis
    proof (cases sg)
      case (Chr d)
      with Cons Cons.prems(3) have cd: "c = d" and p: "prefix w (render {} rest)" by auto
      have "\<exists>rest'. rest = map Chr w @ rest'"
      proof (rule Cons.IH[OF tail_ok_tl[OF Cons.prems(1)] _ p])
        fix a b assume "Tok a b \<in> set rest"
        with Cons.prems(2)[of a b] Cons have "token a" "\<not> sublist a (c # w)" by auto
        then show "token a \<and> \<not> sublist a w" by (auto simp: sublist_Cons_right)
      qed
      with Cons Chr cd show ?thesis by auto
    next
      case (Tok a b)
      with Cons Cons.prems(2)[of a b] have t: "token a" "\<not> sublist a (c # w)" by auto
      from Cons.prems(3) Cons Tok have "prefix (c # w) (a @ render {} rest)" by simp
      with token_start_excl[OF t(1) Cons.prems(1) _ t(2)] show ?thesis by blast
    qed
  qed
qed

function sreplace :: "string \<Rightarrow> string \<Rightarrow> seg list \<Rightarrow> seg list" where
  "sreplace w ph [] = []"
| "sreplace w ph (Tok a b # segs) = Tok a b # sreplace w ph segs"
| "sreplace w ph (Chr c # segs) =
     (if w \<noteq> [] \<and> prefix (map Chr w) (Chr c # segs)
      then Tok ph w # sreplace w ph (drop (length w) (Chr c # segs))
      else Chr c # sreplace w ph segs)"
  by pat_completeness auto
termination
  by (relation "measure (\<lambda>(w, ph, segs). length segs)") auto

lemma replace_render:
  assumes "piece w" "\<And>a b. Tok a b \<in> set segs \<Longrightarrow> token a \<and> \<not> sublist a w"
  shows "replace_from w ph (render {} segs) = render {} (sreplace w ph segs)"
  using assms
proof (induction w ph segs rule: sreplace.induct)
  case (1 w ph)
  then show ?case by simp
next
  case (2 w ph a b segs)
  from "2.prems"(2)[of a b] have t: "token a" "\<not> sublist a w" by auto
  have "replace_from w ph (render {} segs) = render {} (sreplace w ph segs)"
    by (rule "2.IH") (use "2.prems" in auto)
  with token_region_skip[OF t(1) "2.prems"(1) t(2)] show ?case by simp
next
  case (3 w ph c segs)
  note pw = "3.prems"(1)
  have ne: "w \<noteq> []" by (rule piece_nonempty[OF pw])
  show ?case
  proof (cases "prefix (map Chr w) (Chr c # segs)")
    case True
    then obtain rest where rest: "Chr c # segs = map Chr w @ rest" by (auto simp: prefix_def)
    have d: "drop (length w) (Chr c # segs) = rest" by (simp add: rest)
    have "replace_from w ph (render {} rest) = render {} (sreplace w ph rest)"
    proof (rule "3.IH"(1)[unfolded d])
      show "w \<noteq> [] \<and> prefix (map Chr w) (Chr c # segs)" using ne True by simp
      show "piece w" by (rule pw)
      fix a b assume "Tok a b \<in> set rest"
      then have "Tok a b \<in> set (Chr c # segs)" unfolding rest by simp
      then show "token a \<and> \<not> sublist a w" using "3.prems"(2)[of a b] by simp
    qed
    moreover have "render {} (Chr c # segs) = w @ render {} rest"
      unfolding rest by (simp add: render_append render_chars)
    moreover have "sreplace w ph (Chr c # segs) = Tok ph w # sreplace w ph rest"
      using True ne d by simp
    ultimately show ?thesis using replace_from_hit[OF ne] by simp
  next
    case False
    have "\<not> prefix w (render {} (Chr c # segs))"
    proof
      assume "prefix w (render {} (Chr c # segs))"
      from match_in_chars[OF piece_tail_ok[OF pw] "3.prems"(2) this]
      show False using False by (auto simp: prefix_def)
    qed
    moreover have "replace_from w ph (render {} segs) = render {} (sreplace w ph segs)"
      by (rule "3.IH"(2)) (use False "3.prems" in auto)
    ultimately show ?thesis using False by simp
  qed
qed

lemma sreplace_expand:
  "render UNIV (sreplace w ph segs) = render UNIV segs"
proof (induction w ph segs rule: sreplace.induct)
  case (3 w ph c segs)
  show ?case
  proof (cases "w \<noteq> [] \<and> prefix (map Chr w) (Chr c # segs)")
    case True
    then obtain rest where rest: "Chr c # segs = map Chr w @ rest" by (auto simp: prefix_def)
    have d: "drop (length w) (Chr c # segs) = rest" by (simp add: rest)
    from "3.IH"(1)[OF True] d
    have "render UNIV (sreplace w ph rest) = render UNIV rest" by simp
    moreover have "render UNIV (Chr c # segs) = w @ render UNIV rest"
      unfolding rest by (simp add: render_append render_chars)
    moreover have "sreplace w ph (Chr c # segs) = Tok ph w # sreplace w ph rest"
      using True d by simp
    ultimately show ?thesis by simp
  next
    case False
    with "3.IH"(2) show ?thesis by auto
  qed
qed simp_all

lemma sreplace_toks:
  "Tok a b \<in> set (sreplace w ph segs) \<Longrightarrow> Tok a b \<in> set segs \<or> (a = ph \<and> b = w)"
proof (induction w ph segs rule: sreplace.induct)
  case (3 w ph c segs)
  show ?case
  proof (cases "w \<noteq> [] \<and> prefix (map Chr w) (Chr c # segs)")
    case True
    with "3.prems" have "(a = ph \<and> b = w) \<or> Tok a b \<in> set (sreplace w ph (drop (length w) (Chr c # segs)))"
      by auto
    with "3.IH"(1)[OF True] have "(a = ph \<and> b = w) \<or> Tok a b \<in> set (drop (length w) (Chr c # segs))"
      by blast
    then show ?thesis by (meson in_set_dropD)
  next
    case False
    with "3.prems" "3.IH"(2) show ?thesis by auto
  qed
qed auto

lemma prefix_expand:
  assumes "CHR ''<'' \<notin> set w" "\<And>a b. Tok a b \<in> set segs \<Longrightarrow> token a"
    "prefix w (render D segs)"
  shows "prefix w (render UNIV segs)"
  using assms
proof (induction segs arbitrary: w)
  case Nil
  then show ?case by simp
next
  case (Cons sg segs)
  show ?case
  proof (cases sg)
    case (Chr c)
    show ?thesis
    proof (cases w)
      case Nil
      then show ?thesis by simp
    next
      case (Cons d w')
      with Chr Cons.prems(3) have "d = c" "prefix w' (render D segs)" by auto
      moreover from Cons Cons.prems(1) have "CHR ''<'' \<notin> set w'" by simp
      ultimately have "prefix w' (render UNIV segs)"
        using Cons.IH[of w'] Cons.prems(2) by auto
      with Chr Cons \<open>d = c\<close> show ?thesis by simp
    qed
  next
    case (Tok a b)
    from Cons.prems(2)[of a b] Tok have ta: "token a" by simp
    show ?thesis
    proof (cases "a \<in> D")
      case True
      with Tok Cons.prems(3) have "prefix w (b @ render D segs)" by simp
      then consider "prefix w b" | us where "w = b @ us" "prefix us (render D segs)"
        by (auto simp: prefix_append)
      then show ?thesis
      proof cases
        case 1
        then show ?thesis using Tok by (auto simp: prefix_append)
      next
        case 2
        with Cons.prems(1) have "CHR ''<'' \<notin> set us" by simp
        with 2 have "prefix us (render UNIV segs)"
          using Cons.IH[of us] Cons.prems(2) by auto
        with 2 Tok show ?thesis by simp
      qed
    next
      case False
      with Tok Cons.prems(3) have p: "prefix w (a @ render D segs)" by simp
      from ta obtain X where "a = CHR ''<'' # X @ ''>''" by (auto simp: token_def)
      with p Cons.prems(1) have "w = []" by (cases w) auto
      then show ?thesis by simp
    qed
  qed
qed

lemma token_not_behind:
  assumes "token ph" "\<And>a b. Tok a b \<in> set segs \<Longrightarrow> token a" "u \<noteq> []"
    "prefix ph (u @ render D segs)"
  shows "sublist ph (u @ render UNIV segs)"
proof -
  from assms(1) obtain X where ph: "ph = CHR ''<'' # X @ ''>''" and X: "CHR ''<'' \<notin> set X"
    by (auto simp: token_def)
  from assms(4) consider "prefix ph u" | us where "ph = u @ us" "prefix us (render D segs)"
    by (auto simp: prefix_append)
  then show ?thesis
  proof cases
    case 1
    then have "prefix ph (u @ render UNIV segs)" by (auto simp: prefix_append)
    then show ?thesis by (rule prefix_imp_sublist)
  next
    case 2
    from 2(1) assms(3) have "suffix us (X @ ''>'')"
      by (cases u) (auto simp: ph suffix_def)
    then have "set us \<subseteq> set (X @ ''>'')" by (rule set_mono_suffix)
    with X have "CHR ''<'' \<notin> set us" by auto
    from prefix_expand[OF this assms(2) 2(2)] have "prefix us (render UNIV segs)" .
    with 2(1) have "prefix ph (u @ render UNIV segs)" by simp
    then show ?thesis by (rule prefix_imp_sublist)
  qed
qed

lemma restore_render:
  assumes "token ph" "ph \<notin> D"
    "\<And>a b. Tok a b \<in> set segs \<Longrightarrow> token a \<and> (a = ph \<longrightarrow> b = orig)"
    "\<not> sublist ph (render UNIV segs)"
  shows "replace_from ph orig (render D segs) = render (insert ph D) segs"
  using assms(3,4)
proof (induction segs)
  case Nil
  then show ?case by simp
next
  case (Cons sg segs)
  have toks: "\<And>a b. Tok a b \<in> set segs \<Longrightarrow> token a"
    using Cons.prems(1) by auto
  have ne: "ph \<noteq> []" by (rule token_nonempty[OF assms(1)])
  show ?case
  proof (cases sg)
    case (Chr c)
    have nsub: "\<not> sublist ph (render UNIV segs)"
      using Cons.prems(2) Chr by (auto simp: sublist_Cons_right)
    have IH: "replace_from ph orig (render D segs) = render (insert ph D) segs"
      by (rule Cons.IH) (use Cons.prems(1) nsub in auto)
    have "\<not> prefix ph (c # render D segs)"
    proof
      assume "prefix ph (c # render D segs)"
      then have "prefix ph ([c] @ render D segs)" by simp
      from token_not_behind[OF assms(1) toks _ this]
      have "sublist ph (c # render UNIV segs)" by simp
      with Cons.prems(2) Chr show False by simp
    qed
    with IH Chr show ?thesis by simp
  next
    case (Tok a b)
    from Cons.prems(1)[of a b] Tok have ta: "token a" and ab: "a = ph \<longrightarrow> b = orig" by auto
    have rU: "render UNIV (sg # segs) = b @ render UNIV segs" using Tok by simp
    have nsub: "\<not> sublist ph (render UNIV segs)"
      using Cons.prems(2) rU by (auto dest: sublist_behind)
    have IH: "replace_from ph orig (render D segs) = render (insert ph D) segs"
      by (rule Cons.IH) (use Cons.prems(1) nsub in auto)
    consider "a \<in> D" | "a \<notin> D" "a = ph" | "a \<notin> D" "a \<noteq> ph" by blast
    then show ?thesis
    proof cases
      case 1
      have "replace_from ph orig (b @ render D segs) = b @ replace_from ph orig (render D segs)"
      proof (rule replace_from_skip)
        fix u assume u: "u \<noteq> []" "suffix u b"
        show "\<not> prefix ph (u @ render D segs)"
        proof
          assume "prefix ph (u @ render D segs)"
          from token_not_behind[OF assms(1) toks u(1) this]
          have "sublist ph (u @ render UNIV segs)" .
          moreover from u(2) obtain v where "b = v @ u" by (auto simp: suffix_def)
          ultimately have "sublist ph (b @ render UNIV segs)"
            by (auto dest: sublist_behind[where zs = v])
          with Cons.prems(2) rU show False by simp
        qed
      qed
      with IH 1 Tok assms(2) show ?thesis by auto
    next
      case 2
      with ab have "b = orig" by simp
      with 2 IH Tok replace_from_hit[OF ne, of orig "render D segs"] show ?thesis by simp
    next
      case 3
      have "replace_from ph orig (a @ render D segs) = a @ replace_from ph orig (render D segs)"
      proof (rule replace_from_skip)
        fix u assume u: "u \<noteq> []" "suffix u a"
        show "\<not> prefix ph (u @ render D segs)"
        proof (cases "u = a")
          case True
          with token_prefix_eq[OF assms(1) ta] 3 show ?thesis by auto
        next
          case False
          from ta obtain X where a: "a = CHR ''<'' # X @ ''>''" and X: "CHR ''<'' \<notin> set X"
            by (auto simp: token_def)
          from u(2) False have "suffix u (X @ ''>'')" by (auto simp: a suffix_Cons)
          then have "set u \<subseteq> set (X @ ''>'')" by (rule set_mono_suffix)
          with X have "CHR ''<'' \<notin> set u" by auto
          moreover from assms(1) have "hd ph = CHR ''<''" by (auto simp: token_def)
          ultimately show ?thesis using u(1) ne by (cases u; cases ph) auto
        qed
      qed
      with IH 3 Tok show ?thesis by auto
    qed
  qed
qed

subsection \<open>The placeholder tokens\<close>

lemma digit_char_table: "map digit_char [0..<10] = ''0123456789''"
  by code_simp

lemma digit_char_nth: "d < 10 \<Longrightarrow> digit_char d = ''0123456789'' ! d"
proof -
  assume d: "d < 10"
  then have "map digit_char [0..<10] ! d = digit_char ([0..<10] ! d)" by (intro nth_map) simp
  with d show ?thesis by (simp add: digit_char_table del: upt_Suc)
qed

lemma digit_char_is_digit: "d < 10 \<Longrightarrow> is_digit (digit_char d)"
proof -
  assume d: "d < 10"
  then have "''0123456789'' ! d \<in> set ''0123456789''" by (intro nth_mem) simp
  with d show ?thesis by (simp only: digit_char_nth is_digit_def)
qed

definition digit_val :: "char \<Rightarrow> nat" where
  "digit_val c = length (takeWhile (\<lambda>x. x \<noteq> c) ''0123456789'')"

lemma digit_cases: "d < 10 \<Longrightarrow> d \<in> {0, 1, 2, 3, 4, 5, 6, 7, 8, 9::nat}"
  by auto

lemma digit_val_digit_char: "d < 10 \<Longrightarrow> digit_val (digit_char d) = d"
  using digit_cases[of d] by (auto simp: digit_char_nth digit_val_def)

lemma str_nat_digits: "c \<in> set (str_nat n) \<Longrightarrow> is_digit c"
proof (induction n rule: str_nat.induct)
  case (1 n)
  show ?case
  proof (cases "n < 10")
    case True
    with "1.prems" show ?thesis by (simp add: str_nat.simps[of n] digit_char_is_digit)
  next
    case False
    with "1.prems" "1.IH" show ?thesis
      by (auto simp: str_nat.simps[of n] digit_char_is_digit)
  qed
qed

definition digits_val :: "string \<Rightarrow> nat" where
  "digits_val s = foldl (\<lambda>a c. 10 * a + digit_val c) 0 s"

lemma digits_val_str_nat: "digits_val (str_nat n) = n"
proof (induction n rule: str_nat.induct)
  case (1 n)
  show ?case
  proof (cases "n < 10")
    case True
    then show ?thesis by (simp add: str_nat.simps[of n] digits_val_def digit_val_digit_char)
  next
    case False
    with "1.IH" have "digits_val (str_nat (n div 10)) = n div 10" by simp
    with False show ?thesis
      by (simp add: str_nat.simps[of n] digits_val_def digit_val_digit_char)
  qed
qed

lemma str_nat_inj: "str_nat i = str_nat j \<Longrightarrow> i = j"
  by (metis digits_val_str_nat)

lemma is_digit_not_special:
  "is_digit c \<Longrightarrow> c \<noteq> CHR ''<'' \<and> c \<noteq> CHR ''>'' \<and> c \<noteq> CHR '':''"
  by (auto simp: is_digit_def)

lemma time_placeholder_token: "token (time_placeholder i)"
  unfolding token_def time_placeholder_def
  by (rule exI[of _ "''TIME_'' @ str_nat i"]) (auto dest: str_nat_digits is_digit_not_special)

lemma tag_placeholder_token: "token (tag_placeholder i f)"
proof (cases "prefix ''</'' f")
  case True
  then show ?thesis unfolding token_def tag_placeholder_def
    by (intro exI[of _ "''ETAG_'' @ str_nat i"]) (auto dest: str_nat_digits is_digit_not_special)
next
  case False
  then show ?thesis unfolding token_def tag_placeholder_def
    by (intro exI[of _ "''BTAG_'' @ str_nat i"]) (auto dest: str_nat_digits is_digit_not_special)
qed

lemma time_placeholder_inj: "time_placeholder i = time_placeholder j \<Longrightarrow> i = j"
  by (auto simp: time_placeholder_def dest: str_nat_inj)

lemma tag_placeholder_inj: "tag_placeholder i f = tag_placeholder j g \<Longrightarrow> i = j"
  by (auto simp: tag_placeholder_def dest: str_nat_inj split: if_splits)

lemma time_tag_placeholder_neq: "time_placeholder i \<noteq> tag_placeholder j f"
  by (auto simp: time_placeholder_def tag_placeholder_def)

lemma update_fresh: "k \<notin> fst ` set m \<Longrightarrow> AList.update k v m = m @ [(k, v)]"
  by (induction m) auto

subsection \<open>Protecting and restoring along a list of replacements\<close>

lemma replace_nonempty: "old \<noteq> [] \<Longrightarrow> replace old new s = replace_from old new s"
  by (simp add: replace_def)

lemma sublist_trans: "sublist a b \<Longrightarrow> sublist b c \<Longrightarrow> sublist a c"
  unfolding sublist_def by (metis append.assoc)

lemma protect_fold_segs:
  assumes G: "\<And>w ph. (w, ph) \<in> set all \<Longrightarrow> piece w \<and> token ph \<and> sublist w t \<and> \<not> sublist ph t"
    and "set steps \<subseteq> set all"
    and "\<And>a b. Tok a b \<in> set segs \<Longrightarrow> (b, a) \<in> set all"
  shows "\<exists>segs'. fold (\<lambda>(w, ph). replace w ph) steps (render {} segs) = render {} segs' \<and>
           render UNIV segs' = render UNIV segs \<and>
           (\<forall>a b. Tok a b \<in> set segs' \<longrightarrow> (b, a) \<in> set all)"
  using assms(2,3)
proof (induction steps arbitrary: segs)
  case Nil
  then show ?case by auto
next
  case (Cons st steps)
  obtain w ph where st: "st = (w, ph)" by (cases st)
  with Cons.prems(1) have in_all: "(w, ph) \<in> set all" by simp
  from G[OF in_all] have pw: "piece w" and wt: "sublist w t" by auto
  have toks: "\<And>a b. Tok a b \<in> set segs \<Longrightarrow> token a \<and> \<not> sublist a w"
  proof -
    fix a b assume "Tok a b \<in> set segs"
    from G[OF Cons.prems(2)[OF this]] have "token a" "\<not> sublist a t" by auto
    with wt show "token a \<and> \<not> sublist a w" by (auto dest: sublist_trans)
  qed
  let ?segs1 = "sreplace w ph segs"
  have step: "replace w ph (render {} segs) = render {} ?segs1"
    using replace_render[OF pw toks] piece_nonempty[OF pw] by (simp add: replace_nonempty)
  have inv1: "\<And>a b. Tok a b \<in> set ?segs1 \<Longrightarrow> (b, a) \<in> set all"
    using sreplace_toks Cons.prems(2) in_all by blast
  have "\<exists>segs'. fold (\<lambda>(w, ph). replace w ph) steps (render {} ?segs1) = render {} segs' \<and>
           render UNIV segs' = render UNIV ?segs1 \<and>
           (\<forall>a b. Tok a b \<in> set segs' \<longrightarrow> (b, a) \<in> set all)"
  proof (rule Cons.IH)
    show "set steps \<subseteq> set all" using Cons.prems(1) by simp
    show "\<And>a b. Tok a b \<in> set ?segs1 \<Longrightarrow> (b, a) \<in> set all" by (rule inv1)
  qed
  then show ?case by (auto simp: st step sreplace_expand)
qed

lemma restore_fold_segs:
  assumes G: "\<And>w ph. (w, ph) \<in> set all \<Longrightarrow> piece w \<and> token ph \<and> sublist w t \<and> \<not> sublist ph t"
    and dist: "distinct (map snd all)"
    and inv: "\<And>a b. Tok a b \<in> set segs \<Longrightarrow> (b, a) \<in> set all"
    and exp: "render UNIV segs = t"
    and "all = done @ todo"
  shows "fold (\<lambda>(w, ph). replace ph w) todo (render (snd ` set done) segs) =
           render (snd ` set all) segs"
  using assms(5)
proof (induction todo arbitrary: "done")
  case Nil
  then show ?case by simp
next
  case (Cons st todo)
  obtain w ph where st: "st = (w, ph)" by (cases st)
  with Cons.prems have in_all: "(w, ph) \<in> set all" by simp
  from G[OF in_all] have tph: "token ph" and nsub: "\<not> sublist ph t" by auto
  from dist Cons.prems st have fresh: "ph \<notin> snd ` set done" by auto
  have toks: "\<And>a b. Tok a b \<in> set segs \<Longrightarrow> token a \<and> (a = ph \<longrightarrow> b = w)"
  proof -
    fix a b assume "Tok a b \<in> set segs"
    from inv[OF this] have ba: "(b, a) \<in> set all" .
    from G[OF ba] have "token a" by simp
    moreover have "a = ph \<longrightarrow> b = w"
    proof
      assume "a = ph"
      from dist have "inj_on snd (set all)" by (simp add: distinct_map)
      from inj_onD[OF this _ ba in_all] \<open>a = ph\<close> show "b = w" by simp
    qed
    ultimately show "token a \<and> (a = ph \<longrightarrow> b = w)" by simp
  qed
  have step: "replace ph w (render (snd ` set done) segs) = render (insert ph (snd ` set done)) segs"
    using restore_render[OF tph fresh toks] nsub exp token_nonempty[OF tph]
    by (simp add: replace_nonempty)
  have "fold (\<lambda>(w, ph). replace ph w) todo (render (snd ` set (done @ [st])) segs) =
          render (snd ` set all) segs"
    by (rule Cons.IH) (use Cons.prems in simp)
  then show ?case by (simp add: st step)
qed

theorem fold_roundtrip:
  assumes G: "\<And>w ph. (w, ph) \<in> set all \<Longrightarrow> piece w \<and> token ph \<and> sublist w t \<and> \<not> sublist ph t"
    and dist: "distinct (map snd all)"
  shows "fold (\<lambda>(w, ph). replace ph w) all (fold (\<lambda>(w, ph). replace w ph) all t) = t"
proof -
  have t0: "render {} (map Chr t) = t" "render UNIV (map Chr t) = t"
    by (simp_all add: render_chars)
  from protect_fold_segs[OF G subset_refl, where segs = "map Chr t"] obtain segs where
    p: "fold (\<lambda>(w, ph). replace w ph) all t = render {} segs"
    and e: "render UNIV segs = t"
    and inv: "\<And>a b. Tok a b \<in> set segs \<Longrightarrow> (b, a) \<in> set all"
    by (auto simp: t0)
  from restore_fold_segs[OF G dist inv e, where ?done = "[]" and todo = all]
  have "fold (\<lambda>(w, ph). replace ph w) all (render {} segs) = render (snd ` set all) segs"
    by simp
  also have "\<dots> = render UNIV segs"
    by (rule render_cong) (use inv in force)
  finally show ?thesis by (simp add: p e)
qed

subsection \<open>What the two searches of \<open>protect_content\<close> find\<close>

lemma matches_at_nth:
  "matches_at p s \<Longrightarrow> length p \<le> length s \<and> (\<forall>i<length p. atom_matches (p ! i) (s ! i))"
  by (induction p s rule: matches_at.induct) (auto simp: nth_Cons split: nat.splits)

lemma timecode_atoms:
  "a \<in> set timecode_pattern \<Longrightarrow> atom_matches a c \<Longrightarrow> c \<noteq> CHR ''<'' \<and> c \<noteq> CHR ''>''"
  by (auto simp: timecode_pattern_def dest: is_digit_not_special)

lemma timecode_plain:
  assumes "matches_at timecode_pattern s"
  shows "plain (take 12 s)"
proof -
  have len: "length timecode_pattern = 12" by (simp add: timecode_pattern_def)
  from matches_at_nth[OF assms] len have l: "12 \<le> length s"
    and m: "\<And>i. i < 12 \<Longrightarrow> atom_matches (timecode_pattern ! i) (s ! i)" by auto
  from m[of 2] have "s ! 2 = CHR '':''" by (simp add: timecode_pattern_def)
  moreover from l have "take 12 s ! 2 \<in> set (take 12 s)" by (intro nth_mem) simp
  ultimately have colon: "CHR '':'' \<in> set (take 12 s)" by simp
  have "c \<noteq> CHR ''<'' \<and> c \<noteq> CHR ''>''" if "c \<in> set (take 12 s)" for c
  proof -
    from that l obtain i where i: "i < 12" "c = s ! i"
      by (auto simp: in_set_conv_nth)
    from i(1) len have "timecode_pattern ! i \<in> set timecode_pattern" by (intro nth_mem) simp
    from timecode_atoms[OF this] m[OF i(1)] i(2) show ?thesis by simp
  qed
  with colon show ?thesis by (auto simp: plain_def)
qed

lemma findall_timecodes_elem:
  "x \<in> set (findall_timecodes s) \<Longrightarrow> sublist x s \<and> plain x"
proof (induction s rule: findall_timecodes.induct)
  case 1
  then show ?case by simp
next
  case (2 c cs)
  show ?case
  proof (cases "matches_at timecode_pattern (c # cs)")
    case True
    with "2.prems" consider "x = take 12 (c # cs)" | "x \<in> set (findall_timecodes (drop 12 (c # cs)))"
      by auto
    then show ?thesis
    proof cases
      case 1
      show ?thesis unfolding 1 by (intro conjI sublist_take timecode_plain[OF True])
    next
      case 2
      with "2.IH"(1)[OF True] have "sublist x (drop 12 (c # cs))" "plain x" by auto
      then show ?thesis by (metis sublist_drop sublist_trans)
    qed
  next
    case False
    with "2.prems" "2.IH"(2) have "sublist x cs" "plain x" by auto
    then show ?thesis by (auto simp: sublist_Cons_right)
  qed
qed

lemma match_tag_Some:
  assumes "match_tag s = Some (body, rest)"
  shows "s = CHR ''<'' # body @ CHR ''>'' # rest \<and> CHR ''>'' \<notin> set body"
proof -
  from assms obtain cs where s: "s = CHR ''<'' # cs"
    by (cases s) (auto simp: match_tag_def split: if_splits)
  let ?P = "\<lambda>x. x \<noteq> CHR ''>''"
  from assms s have b: "body = takeWhile ?P cs" and ne: "dropWhile ?P cs \<noteq> []"
    and r: "rest = tl (dropWhile ?P cs)"
    by (auto simp: match_tag_def Let_def split: if_splits)
  from hd_dropWhile[OF ne] have "hd (dropWhile ?P cs) = CHR ''>''" by simp
  with ne r have "dropWhile ?P cs = CHR ''>'' # rest" by (cases "dropWhile ?P cs") auto
  then have "cs = body @ CHR ''>'' # rest"
    using takeWhile_dropWhile_id[of ?P cs] b by simp
  moreover have "CHR ''>'' \<notin> set body" unfolding b by (auto dest: set_takeWhileD)
  ultimately show ?thesis using s by simp
qed

lemma findall_tags_elem:
  "x \<in> set (findall_tags s) \<Longrightarrow> sublist (CHR ''<'' # x @ ''>'') s \<and> CHR ''>'' \<notin> set x"
proof (induction s rule: findall_tags.induct)
  case 1
  then show ?case by simp
next
  case (2 c cs)
  show ?case
  proof (cases "match_tag (c # cs)")
    case None
    with "2.prems" have "x \<in> set (findall_tags cs)" by simp
    from "2.IH"(1)[OF None this]
    have "sublist (CHR ''<'' # x @ ''>'') cs" "CHR ''>'' \<notin> set x" by simp_all
    then show ?thesis by (simp add: sublist_Cons_right)
  next
    case (Some br)
    obtain body rest where br: "br = (body, rest)" by (cases br)
    from match_tag_Some[OF Some[unfolded br]]
    have s: "c # cs = CHR ''<'' # body @ CHR ''>'' # rest" and nb: "CHR ''>'' \<notin> set body"
      by simp_all
    from "2.prems" Some br consider "x = body" | "x \<in> set (findall_tags rest)" by auto
    then show ?thesis
    proof cases
      case 1
      have "c # cs = [] @ (CHR ''<'' # body @ ''>'') @ rest" using s by simp
      then have "sublist (CHR ''<'' # body @ ''>'') (c # cs)" unfolding sublist_def by blast
      with 1 nb show ?thesis by simp
    next
      case 2
      from "2.IH"(2)[OF Some br[symmetric] 2]
      have "sublist (CHR ''<'' # x @ ''>'') rest" "CHR ''>'' \<notin> set x" by simp_all
      moreover have "sublist rest (c # cs)" unfolding s sublist_def
        by (rule exI[of _ "CHR ''<'' # body @ ''>''"], rule exI[of _ "[]"]) simp
      ultimately show ?thesis by (blast intro: sublist_trans)
    qed
  qed
qed

subsection \<open>The loops of \<open>protect_content\<close> as lists of replacements\<close>

definition time_steps :: "nat \<Rightarrow> string list \<Rightarrow> (string \<times> string) list" where
  "time_steps idx tcs = map (\<lambda>(i, tc). (tc, time_placeholder i)) (enumerate idx tcs)"

definition tag_steps :: "nat \<Rightarrow> string list \<Rightarrow> (string \<times> string) list" where
  "tag_steps idx tags =
     map (\<lambda>(i, tag). (''<'' @ tag @ ''>'', tag_placeholder i (''<'' @ tag @ ''>''))) (enumerate idx tags)"

lemma time_steps_Cons:
  "time_steps idx (tc # tcs) = (tc, time_placeholder idx) # time_steps (Suc idx) tcs"
  by (simp add: time_steps_def)

lemma tag_steps_Cons:
  "tag_steps idx (tag # tags) =
     (''<'' @ tag @ ''>'', tag_placeholder idx (''<'' @ tag @ ''>'')) # tag_steps (Suc idx) tags"
  by (simp add: tag_steps_def)

lemma protect_timecodes_fold:
  assumes "\<And>i. idx \<le> i \<Longrightarrow> time_placeholder i \<notin> fst ` set m"
  shows "protect_timecodes idx tcs (p, m) =
           (fold (\<lambda>(w, ph). replace w ph) (time_steps idx tcs) p,
            m @ map (\<lambda>(w, ph). (ph, w)) (time_steps idx tcs))"
  using assms
proof (induction tcs arbitrary: idx p m)
  case Nil
  then show ?case by (simp add: time_steps_def)
next
  case (Cons tc tcs)
  have u: "AList.update (time_placeholder idx) tc m = m @ [(time_placeholder idx, tc)]"
    by (rule update_fresh) (use Cons.prems[of idx] in simp)
  have "protect_timecodes (Suc idx) tcs
          (replace tc (time_placeholder idx) p, m @ [(time_placeholder idx, tc)]) =
        (fold (\<lambda>(w, ph). replace w ph) (time_steps (Suc idx) tcs)
           (replace tc (time_placeholder idx) p),
         (m @ [(time_placeholder idx, tc)]) @ map (\<lambda>(w, ph). (ph, w)) (time_steps (Suc idx) tcs))"
  proof (rule Cons.IH)
    fix i assume "Suc idx \<le> i"
    then have "time_placeholder i \<notin> fst ` set m" "i \<noteq> idx" using Cons.prems[of i] by auto
    then show "time_placeholder i \<notin> fst ` set (m @ [(time_placeholder idx, tc)])"
      by (auto dest: time_placeholder_inj)
  qed
  then show ?case by (simp add: u time_steps_Cons)
qed

lemma protect_tags_fold:
  assumes "\<And>i f. idx \<le> i \<Longrightarrow> tag_placeholder i f \<notin> fst ` set m"
  shows "protect_tags idx tags (p, m) =
           (fold (\<lambda>(w, ph). replace w ph) (tag_steps idx tags) p,
            m @ map (\<lambda>(w, ph). (ph, w)) (tag_steps idx tags))"
  using assms
proof (induction tags arbitrary: idx p m)
  case Nil
  then show ?case by (simp add: tag_steps_def)
next
  case (Cons tag tags)
  let ?f = "''<'' @ tag @ ''>''"
  have u: "AList.update (tag_placeholder idx ?f) ?f m = m @ [(tag_placeholder idx ?f, ?f)]"
    by (rule update_fresh) (use Cons.prems[of idx] in simp)
  have "protect_tags (Suc idx) tags
          (replace ?f (tag_placeholder idx ?f) p, m @ [(tag_placeholder idx ?f, ?f)]) =
        (fold (\<lambda>(w, ph). replace w ph) (tag_steps (Suc idx) tags)
           (replace ?f (tag_placeholder idx ?f) p),
         (m @ [(tag_placeholder idx ?f, ?f)]) @ map (\<lambda>(w, ph). (ph, w)) (tag_steps (Suc idx) tags))"
  proof (rule Cons.IH)
    fix i f assume "Suc idx \<le> i"
    then have "tag_placeholder i f \<notin> fst ` set m" "i \<noteq> idx" using Cons.prems[of i f] by auto
    then show "tag_placeholder i f \<notin> fst ` set (m @ [(tag_placeholder idx ?f, ?f)])"
      by (auto dest: tag_placeholder_inj)
  qed
  then show ?case by (simp add: u tag_steps_Cons Let_def del: append_Cons Cons_eq_appendI)
qed

lemma time_steps_elem:
  "(w, ph) \<in> set (time_steps idx tcs) \<Longrightarrow> w \<in> set tcs \<and> (\<exists>i\<ge>idx. ph = time_placeholder i)"
proof (induction tcs arbitrary: idx)
  case Nil
  then show ?case by (simp add: time_steps_def)
next
  case (Cons tc tcs)
  from Cons.prems consider "(w, ph) = (tc, time_placeholder idx)"
    | "(w, ph) \<in> set (time_steps (Suc idx) tcs)" by (auto simp: time_steps_Cons)
  then show ?case
  proof cases
    case 1
    then show ?thesis by auto
  next
    case 2
    from Cons.IH[OF 2] show ?thesis by (auto intro: Suc_leD)
  qed
qed

lemma tag_steps_elem:
  "(w, ph) \<in> set (tag_steps idx tags) \<Longrightarrow>
     (\<exists>tag\<in>set tags. w = ''<'' @ tag @ ''>'') \<and> (\<exists>i\<ge>idx. \<exists>f. ph = tag_placeholder i f)"
proof (induction tags arbitrary: idx)
  case Nil
  then show ?case by (simp add: tag_steps_def)
next
  case (Cons tag tags)
  from Cons.prems consider "(w, ph) = (''<'' @ tag @ ''>'', tag_placeholder idx (''<'' @ tag @ ''>''))"
    | "(w, ph) \<in> set (tag_steps (Suc idx) tags)" by (auto simp: tag_steps_Cons)
  then show ?case
  proof cases
    case 1
    then show ?thesis by auto
  next
    case 2
    from Cons.IH[OF 2] show ?thesis by (auto intro: Suc_leD)
  qed
qed

lemma time_steps_distinct: "distinct (map snd (time_steps idx tcs))"
proof (induction tcs arbitrary: idx)
  case Nil
  then show ?case by (simp add: time_steps_def)
next
  case (Cons tc tcs)
  have "time_placeholder idx \<notin> snd ` set (time_steps (Suc idx) tcs)"
    by (auto dest!: time_steps_elem time_placeholder_inj)
  with Cons.IH[of "Suc idx"] show ?case by (simp add: time_steps_Cons)
qed

lemma tag_steps_distinct: "distinct (map snd (tag_steps idx tags))"
proof (induction tags arbitrary: idx)
  case Nil
  then show ?case by (simp add: tag_steps_def)
next
  case (Cons tag tags)
  have "tag_placeholder idx f \<notin> snd ` set (tag_steps (Suc idx) tags)" for f
    by (auto dest!: tag_steps_elem tag_placeholder_inj)
  with Cons.IH[of "Suc idx"] show ?case by (simp add: tag_steps_Cons del: append_Cons)
qed

definition all_steps :: "string \<Rightarrow> (string \<times> string) list" where
  "all_steps t = time_steps 0 (findall_timecodes t) @ tag_steps 0 (findall_tags t)"

lemma all_steps_distinct: "distinct (map snd (all_steps t))"
  using time_steps_distinct tag_steps_distinct
  by (auto simp: all_steps_def dest!: time_steps_elem tag_steps_elem
      simp: time_tag_placeholder_neq)

lemma protect_content_steps:
  "protect_content t =
     (fold (\<lambda>(w, ph). replace w ph) (all_steps t) t, map (\<lambda>(w, ph). (ph, w)) (all_steps t))"
proof -
  have a: "protect_timecodes 0 (findall_timecodes t) (t, []) =
      (fold (\<lambda>(w, ph). replace w ph) (time_steps 0 (findall_timecodes t)) t,
       [] @ map (\<lambda>(w, ph). (ph, w)) (time_steps 0 (findall_timecodes t)))"
    by (rule protect_timecodes_fold) simp
  have b: "protect_tags 0 (findall_tags t) (p, map (\<lambda>(w, ph). (ph, w)) (time_steps 0 (findall_timecodes t))) =
      (fold (\<lambda>(w, ph). replace w ph) (tag_steps 0 (findall_tags t)) p,
       map (\<lambda>(w, ph). (ph, w)) (time_steps 0 (findall_timecodes t)) @
       map (\<lambda>(w, ph). (ph, w)) (tag_steps 0 (findall_tags t)))" for p
  proof (rule protect_tags_fold)
    fix i f
    show "tag_placeholder i f \<notin> fst ` set (map (\<lambda>(w, ph). (ph, w)) (time_steps 0 (findall_timecodes t)))"
      by (auto dest!: time_steps_elem) (metis time_tag_placeholder_neq)
  qed
  show ?thesis by (simp add: protect_content_def a b all_steps_def)
qed

lemma restore_content_fold:
  "restore_content p (map (\<lambda>(w, ph). (ph, w)) steps) = fold (\<lambda>(w, ph). replace ph w) steps p"
  by (induction steps arbitrary: p) auto

lemma all_steps_pieces:
  assumes "(w, ph) \<in> set (all_steps t)"
  shows "piece w \<and> token ph \<and> sublist w t"
proof -
  from assms consider "(w, ph) \<in> set (time_steps 0 (findall_timecodes t))"
    | "(w, ph) \<in> set (tag_steps 0 (findall_tags t))" by (auto simp: all_steps_def)
  then show ?thesis
  proof cases
    case 1
    from time_steps_elem[OF 1] findall_timecodes_elem[of w t] show ?thesis
      by (auto simp: piece_def time_placeholder_token)
  next
    case 2
    from tag_steps_elem[OF 2] obtain tag i f where
      "tag \<in> set (findall_tags t)" "w = ''<'' @ tag @ ''>''" "ph = tag_placeholder i f" by auto
    with findall_tags_elem[of tag t] show ?thesis
      by (auto simp: piece_def tagged_def tag_placeholder_token)
  qed
qed

text \<open>
  C2. When none of the placeholders that \<open>protect_content\<close> generates for a text occurs in
  that text already, restoring the protected text with the recorded replacements gives the
  text back unchanged.
\<close>

theorem protect_restore_roundtrip:
  assumes "protect_content t = (p, m)" and "\<forall>ph \<in> fst ` set m. \<not> sublist ph t"
  shows "restore_content p m = t"
proof -
  from assms(1) have p: "p = fold (\<lambda>(w, ph). replace w ph) (all_steps t) t"
    and m: "m = map (\<lambda>(w, ph). (ph, w)) (all_steps t)"
    by (simp_all add: protect_content_steps)
  have G: "piece w \<and> token ph \<and> sublist w t \<and> \<not> sublist ph t" if "(w, ph) \<in> set (all_steps t)" for w ph
  proof -
    from that have "ph \<in> fst ` set m" unfolding m by force
    with assms(2) all_steps_pieces[OF that] show ?thesis by blast
  qed
  from fold_roundtrip[OF G all_steps_distinct] show ?thesis
    by (simp add: p m restore_content_fold)
qed

theorem protect_restore_roundtrip_witness:
  "restore_content (fst (protect_content ''Hello <i>world</i> at 00:00:01,000''))
     (snd (protect_content ''Hello <i>world</i> at 00:00:01,000'')) =
   ''Hello <i>world</i> at 00:00:01,000''"
proof -
  have h: "\<forall>ph \<in> fst ` set (snd (protect_content ''Hello <i>world</i> at 00:00:01,000'')).
      \<not> sublist ph ''Hello <i>world</i> at 00:00:01,000''"
    by code_simp
  show ?thesis
    by (rule protect_restore_roundtrip[OF _ h]) simp
qed

text \<open>
  C8 (as amended). The placeholders are numbered by position: the \<open>i\<close>-th time stamp found
  becomes \<open><TIME_i>\<close>, and the \<open>i\<close>-th tag found, counting opening and closing tags
  together from zero, becomes \<open><ETAG_i>\<close> when it starts with \<open></\<close> and \<open><BTAG_i>\<close>
  otherwise; the replacements are recorded in this order, time stamps first.
\<close>

theorem placeholder_numbering:
  "snd (protect_content t) =
     map (\<lambda>(i, tc). (''<TIME_'' @ str_nat i @ ''>'', tc)) (enumerate 0 (findall_timecodes t)) @
     map (\<lambda>(i, tag).
            (if prefix ''</'' (''<'' @ tag @ ''>'') then ''<ETAG_'' @ str_nat i @ ''>''
             else ''<BTAG_'' @ str_nat i @ ''>'',
             ''<'' @ tag @ ''>''))
         (enumerate 0 (findall_tags t))"
  by (simp add: protect_content_steps all_steps_def time_steps_def tag_steps_def
      time_placeholder_def tag_placeholder_def split_def)

theorem placeholder_numbering_witness:
  "snd (protect_content ''<i>Hello</i> 00:00:01,000'') =
     [(''<TIME_0>'', ''00:00:01,000''), (''<BTAG_0>'', ''<i>''), (''<ETAG_1>'', ''</i>'')]"
proof -
  have "map (\<lambda>(i, tc). (''<TIME_'' @ str_nat i @ ''>'', tc))
          (enumerate 0 (findall_timecodes ''<i>Hello</i> 00:00:01,000'')) @
        map (\<lambda>(i, tag).
            (if prefix ''</'' (''<'' @ tag @ ''>'') then ''<ETAG_'' @ str_nat i @ ''>''
             else ''<BTAG_'' @ str_nat i @ ''>'',
             ''<'' @ tag @ ''>''))
         (enumerate 0 (findall_tags ''<i>Hello</i> 00:00:01,000'')) =
        [(''<TIME_0>'', ''00:00:01,000''), (''<BTAG_0>'', ''<i>''), (''<ETAG_1>'', ''</i>'')]"
    by code_simp
  with placeholder_numbering[of "''<i>Hello</i> 00:00:01,000''"] show ?thesis by simp
qed

text \<open>
  In a block with the tags \<open><i>\<close> and \<open></i>\<close> the closing tag is the second tag and gets
  the number 1, not the first number of its family.
\<close>

theorem closing_tag_counter_counterexample:
  "protect_content ''<i>Hello</i>'' =
     (''<BTAG_0>Hello<ETAG_1>'', [(''<BTAG_0>'', ''<i>''), (''<ETAG_1>'', ''</i>'')]) \<and>
   fst (protect_content ''<i>Hello</i>'') \<noteq> ''<BTAG_0>Hello<ETAG_0>''"
  by code_simp

section \<open>Round trip of the subtitle codec\<close>

text \<open>
  The blocks that \<open>save_srt\<close> writes and \<open>parse_srt\<close> reads back unchanged: an index of
  digits, a time range of the strict form, and a text without leading or trailing whitespace
  and without a blank line.
\<close>

definition serialized_block :: "block \<Rightarrow> bool" where
  "serialized_block b =
     (case b of (index, timecode, text) \<Rightarrow>
        index \<noteq> [] \<and> list_all is_digit index \<and>
        length timecode = 29 \<and> matches_at timerange_pattern timecode \<and>
        strip text = text \<and> \<not> sublist ''\<newline>\<newline>'' text)"

lemma matches_at_append: "matches_at p s \<Longrightarrow> matches_at p (s @ r)"
  by (induction p s rule: matches_at.induct) auto

lemma stripped_last:
  assumes "strip t = t" "t \<noteq> []"
  shows "\<not> py_isspace (last t)"
proof -
  let ?u = "dropWhile py_isspace t"
  have "length (strip t) \<le> length ?u"
    unfolding strip_def by (metis length_rev length_dropWhile_le)
  with assms(1) have "length t \<le> length ?u" by simp
  moreover have "length ?u \<le> length t" by (rule length_dropWhile_le)
  ultimately have "length ?u = length t" by simp
  then have u: "?u = t"
    by (metis append_eq_append_conv append_Nil takeWhile_dropWhile_id 
        length_append add_cancel_left_left length_0_conv)
  with assms(1) have "dropWhile py_isspace (rev t) = rev t"
    unfolding strip_def by (metis rev_rev_ident)
  with assms(2) have "\<not> py_isspace (hd (rev t))"
    by (auto simp: dropWhile_eq_self_iff)
  with assms(2) show ?thesis by (simp add: hd_rev)
qed

lemma lazy_text_stops:
  assumes "\<not> sublist ''\<newline>\<newline>'' t" "t = [] \<or> last t \<noteq> NL"
  shows "lazy_text (t @ ''\<newline>\<newline>'' @ rest) = (t, ''\<newline>\<newline>'' @ rest)"
  using assms
proof (induction t)
  case Nil
  then show ?case by (simp add: at_block_end_def)
next
  case (Cons c t)
  have nb: "\<not> at_block_end ((c # t) @ ''\<newline>\<newline>'' @ rest)"
  proof (cases t)
    case Nil
    with Cons.prems(2) show ?thesis by (auto simp: at_block_end_def at_end_def)
  next
    case (Cons d t')
    with Cons.prems(1) have "\<not> (c = NL \<and> d = NL)"
      by (auto simp: sublist_Cons_right)
    with Cons show ?thesis by (auto simp: at_block_end_def at_end_def)
  qed
  have "lazy_text (t @ ''\<newline>\<newline>'' @ rest) = (t, ''\<newline>\<newline>'' @ rest)"
  proof (rule Cons.IH)
    show "\<not> sublist ''\<newline>\<newline>'' t" using Cons.prems(1) by (auto simp: sublist_Cons_right)
    show "t = [] \<or> last t \<noteq> NL" using Cons.prems(2) by (cases t) auto
  qed
  with nb show ?case by simp
qed

lemma match_block_serialized:
  assumes "serialized_block (index, timecode, text)"
  shows "match_block (index @ NL # timecode @ NL # text @ NL # NL # rest) =
           Some ((index, timecode, text), NL # NL # rest)"
proof -
  from assms have i: "index \<noteq> []" "list_all is_digit index"
    and tc: "length timecode = 29" "matches_at timerange_pattern timecode"
    and tx: "strip text = text" "\<not> sublist ''\<newline>\<newline>'' text"
    by (simp_all add: serialized_block_def)
  let ?s2 = "timecode @ NL # text @ NL # NL # rest"
  have nd: "\<not> is_digit NL" by (simp add: is_digit_def)
  have tw: "takeWhile is_digit (index @ NL # ?s2) = index"
    using i(2) nd by (simp add: takeWhile_tail list_all_iff)
  have dw: "dropWhile is_digit (index @ NL # ?s2) = NL # ?s2"
    using i(2) nd by (simp add: dropWhile_append list_all_iff)
  have m: "matches_at timerange_pattern ?s2" by (rule matches_at_append[OF tc(2)])
  have d: "drop 29 ?s2 = NL # text @ NL # NL # rest" "take 29 ?s2 = timecode"
    using tc(1) by simp_all
  have "text = [] \<or> last text \<noteq> NL"
    using stripped_last[OF tx(1)] by (auto simp: py_isspace_def)
  from lazy_text_stops[OF tx(2) this, of rest]
  have l: "lazy_text (text @ NL # NL # rest) = (text, NL # NL # rest)" by simp
  have an: "after_newline (NL # u) = Some u" for u by (simp add: after_newline_def)
  show ?thesis
    unfolding match_block_def Let_def tw dw an
    using i(1) m by (simp add: d an l del: drop_append take_append)
qed

lemma findall_blocks_skip_newline: "findall_blocks (NL # s) = findall_blocks s"
  by (simp add: findall_blocks.simps[of "NL # s"] match_block_def is_digit_def)

lemma findall_blocks_serialized:
  assumes "list_all serialized_block bs"
  shows "findall_blocks (srt_text bs) = bs"
  using assms
proof (induction bs)
  case Nil
  then show ?case by (simp add: srt_text_def findall_blocks.simps[of "[]"] match_block_def)
next
  case (Cons b bs)
  obtain idx tc body where b: "b = (idx, tc, body)" by (cases b)
  with Cons.prems have sb: "serialized_block (idx, tc, body)" by simp
  let ?x = "idx @ NL # tc @ NL # body @ NL # NL # srt_text bs"
  have s: "srt_text (b # bs) = ?x"
    by (simp add: srt_text_def block_text_def b)
  have "findall_blocks ?x = (idx, tc, body) # findall_blocks (NL # NL # srt_text bs)"
    by (subst findall_blocks.simps) (simp add: match_block_serialized[OF sb])
  also have "findall_blocks (NL # NL # srt_text bs) = findall_blocks (srt_text bs)"
    by (simp add: findall_blocks_skip_newline)
  finally show ?case using Cons b s by simp
qed

definition two_blocks :: "block list" where
  "two_blocks =
     [(''1'', ''00:00:01,000 --> 00:00:02,000'', ''Hello <i>world</i>''),
      (''2'', ''00:00:02,500 --> 00:00:04,000'', ''Goodbye'')]"

text \<open>
  C1 (as amended). A subtitle text that is the serialization of such blocks, every block
  followed by a blank line, the last one too, is parsed into exactly these blocks, and
  serializing them reproduces the text.
\<close>

theorem serialized_round_trip:
  assumes "list_all serialized_block bs" and "x = srt_text bs"
  shows "parse_srt x = bs \<and> srt_text (parse_srt x) = x"
proof -
  have "map (\<lambda>(index, timecode, text). (index, timecode, strip text)) bs = bs"
    using assms(1) by (induction bs) (auto simp: serialized_block_def)
  with findall_blocks_serialized[OF assms(1)] assms(2) show ?thesis
    by (simp add: parse_srt_def)
qed

theorem serialized_round_trip_witness:
  "parse_srt (srt_text two_blocks) = two_blocks \<and>
   srt_text (parse_srt (srt_text two_blocks)) = srt_text two_blocks"
proof -
  have "list_all serialized_block two_blocks" by code_simp
  from serialized_round_trip[OF this refl] show ?thesis .
qed

text \<open>
  Two blocks separated by a blank line, with nothing behind the last block, come back with
  a blank line appended; a text line with a trailing space comes back without it.
\<close>

theorem round_trip_counterexample:
  "srt_text (parse_srt
     ''1\<newline>00:00:01,000 --> 00:00:02,000\<newline>Hello\<newline>\<newline>2\<newline>00:00:02,500 --> 00:00:04,000\<newline>Goodbye'') \<noteq>
     ''1\<newline>00:00:01,000 --> 00:00:02,000\<newline>Hello\<newline>\<newline>2\<newline>00:00:02,500 --> 00:00:04,000\<newline>Goodbye'' \<and>
   srt_text (parse_srt ''1\<newline>00:00:01,000 --> 00:00:02,000\<newline>Hello \<newline>\<newline>'') =
     ''1\<newline>00:00:01,000 --> 00:00:02,000\<newline>Hello\<newline>\<newline>''"
  by code_simp

section \<open>Runs of the batch driver\<close>

text \<open>
  Every step of the worker appends events to the trace. \<open>ext s evs\<close> is the state \<open>s\<close> after
  the events \<open>evs\<close>; the flag is set at a state when \<open>cancel()\<close> has taken effect before the
  next read of the flag.
\<close>

definition ext :: "state \<Rightarrow> event list \<Rightarrow> state" where
  "ext s evs = s\<lparr>trace := trace s @ evs\<rparr>"

definition cancelled_now :: "env \<Rightarrow> state \<Rightarrow> bool" where
  "cancelled_now ev s = (case cancel_at ev of None \<Rightarrow> False | Some k \<Rightarrow> k \<le> checks s)"

definition call_event :: "event \<Rightarrow> bool" where
  "call_event e = (case e of Post r \<Rightarrow> True | Sleep n \<Rightarrow> True | LogMessage m \<Rightarrow> True | _ \<Rightarrow> False)"

lemma emit_ext: "emit e s = ext s [e]"
  by (simp add: emit_def ext_def)

lemma ext_ext: "ext (ext s a) b = ext s (a @ b)"
  by (simp add: ext_def)

lemma ext_Nil: "ext s [] = s"
  by (simp add: ext_def)

lemma trace_ext: "trace (ext s evs) = trace s @ evs"
  by (simp add: ext_def)

lemma fs_ext: "fs (ext s evs) = fs s"
  by (simp add: ext_def)

lemma is_cancelled_eq:
  "is_cancelled ev s = (cancelled_now ev s, ext s [IsCancelled (cancelled_now ev s)])"
  by (simp add: is_cancelled_def cancelled_now_def emit_ext Let_def)

lemma cancelled_now_mono:
  assumes "cancelled_now ev s" "trace s' = trace s @ evs"
  shows "cancelled_now ev s'"
proof -
  from assms(2) have "checks s \<le> checks s'" by (simp add: checks_def)
  with assms(1) show ?thesis by (auto simp: cancelled_now_def split: option.splits)
qed

lemma translate_attempts_ext:
  "\<exists>evs. snd (translate_attempts ev rq a left s) = ext s evs \<and> list_all call_event evs"
proof (induction left arbitrary: a s)
  case 0
  show ?case by (intro exI[of _ "[]"]) (simp add: ext_Nil)
next
  case (Suc left)
  show ?case
  proof (cases "attempt_outcome a (respond ev (posts s) rq)")
    case (Inr content)
    then have "snd (translate_attempts ev rq a (Suc left) s) = ext s [Post rq]"
      by (simp add: Let_def emit_ext)
    then show ?thesis by (intro exI[of _ "[Post rq]"]) (simp add: call_event_def)
  next
    case (Inl msg)
    define tail where "tail = (if a < RETRY_COUNT then [Sleep RETRY_DELAY] else [])"
    let ?s3 = "ext s ([Post rq, LogMessage msg] @ tail)"
    from Inl have "translate_attempts ev rq a (Suc left) s = translate_attempts ev rq (a + 1) left ?s3"
      by (simp add: Let_def emit_ext ext_ext tail_def)
    moreover from Suc.IH[of "a + 1" ?s3] obtain evs where
      "snd (translate_attempts ev rq (a + 1) left ?s3) = ext ?s3 evs" "list_all call_event evs"
      by blast
    ultimately have "snd (translate_attempts ev rq a (Suc left) s) =
        ext s (([Post rq, LogMessage msg] @ tail) @ evs) \<and>
        list_all call_event (([Post rq, LogMessage msg] @ tail) @ evs)"
      by (simp add: ext_ext call_event_def tail_def)
    then show ?thesis by blast
  qed
qed

lemma translate_block_result:
  assumes "translate_block ev j n k (index, timecode, txt) s = (b', s')"
  shows "(\<exists>txt'. b' = (index, timecode, txt') \<and>
            (txt' = txt \<or> (\<exists>tr. tr \<noteq> [] \<and> txt' = restore_content tr (snd (protect_content txt))))) \<and>
         (\<exists>evs. s' = ext s evs \<and> list_all call_event evs)"
proof -
  obtain p m where pm: "protect_content txt = (p, m)" by (cases "protect_content txt")
  let ?s1 = "ext s [LogMessage (''Translating block '' @ str_nat (k + 1) @ ''/'' @ str_nat n)]"
  obtain res s2 where tt: "translate_text ev j (generate_system_prompt j p) p ?s1 = (res, s2)"
    by (cases "translate_text ev j (generate_system_prompt j p) p ?s1")
  from translate_attempts_ext[of ev "payload j (generate_system_prompt j p) p" 0 "RETRY_COUNT + 1" ?s1] tt
  obtain evs where evs: "s2 = ext ?s1 evs" "list_all call_event evs"
    by (auto simp: translate_text_def)
  show ?thesis
  proof (cases "res = None \<or> res = Some []")
    case True
    with assms pm tt have "b' = (index, timecode, txt)"
      "s' = ext s2 [LogMessage ''Skipping block due to translation failure'']"
      by (auto simp: translate_block_def Let_def emit_ext)
    with evs show ?thesis
      by (auto simp: ext_ext call_event_def intro!: exI[of _ "_ # evs @ [_]"])
  next
    case False
    then obtain tr where tr: "res = Some tr" "tr \<noteq> []" by auto
    with assms pm tt have "b' = (index, timecode, restore_content tr m)" "s' = s2"
      by (auto simp: translate_block_def Let_def emit_ext)
    with evs tr pm show ?thesis
      by (auto simp: ext_ext call_event_def intro!: exI[of _ "_ # evs"])
  qed
qed

definition translated_from :: "block \<Rightarrow> block \<Rightarrow> bool" where
  "translated_from b b' =
     (case b of (index, timecode, txt) \<Rightarrow>
        \<exists>txt'. b' = (index, timecode, txt') \<and>
          (txt' = txt \<or> (\<exists>tr. tr \<noteq> [] \<and> txt' = restore_content tr (snd (protect_content txt)))))"

definition loop_events :: "event list \<Rightarrow> bool" where
  "loop_events evs = (\<forall>e\<in>set evs. call_event e \<or> (\<exists>b. e = IsCancelled b))"

lemma call_events_quiet: "list_all call_event evs \<Longrightarrow> IsCancelled b \<notin> set evs"
  by (auto simp: list_all_iff call_event_def)

lemma call_events_loop: "list_all call_event evs \<Longrightarrow> loop_events evs"
  by (auto simp: list_all_iff loop_events_def)

lemma loop_events_append: "loop_events (a @ b) \<longleftrightarrow> loop_events a \<and> loop_events b"
  by (auto simp: loop_events_def)

lemma loop_events_check: "loop_events [IsCancelled b]"
  by (simp add: loop_events_def)

lemma translate_blocks_result:
  "\<exists>evs. snd (translate_blocks ev j n k bs acc s) = ext s evs \<and> loop_events evs \<and>
     (case fst (translate_blocks ev j n k bs acc s) of
        None \<Rightarrow> (\<exists>pre. evs = pre @ [IsCancelled True] \<and> IsCancelled True \<notin> set pre) \<and>
                cancelled_now ev (ext s evs)
      | Some out \<Rightarrow> IsCancelled True \<notin> set evs \<and>
                (\<exists>out'. out = acc @ out' \<and> list_all2 translated_from bs out'))"
proof (induction bs arbitrary: k acc s)
  case Nil
  show ?case by (intro exI[of _ "[]"]) (simp add: ext_Nil loop_events_def)
next
  case (Cons b bs)
  show ?case
  proof (cases "cancelled_now ev s")
    case True
    then have r: "translate_blocks ev j n k (b # bs) acc s = (None, ext s [IsCancelled True])"
      by (simp add: is_cancelled_eq)
    have "cancelled_now ev (ext s [IsCancelled True])"
      by (rule cancelled_now_mono[OF True]) (simp add: trace_ext)
    with r show ?thesis
      by (intro exI[of _ "[IsCancelled True]"]) (simp add: loop_events_check)
  next
    case False
    let ?s1 = "ext s [IsCancelled False]"
    obtain b' s2 where tb: "translate_block ev j n k b ?s1 = (b', s2)"
      by (cases "translate_block ev j n k b ?s1")
    obtain index timecode body where b: "b = (index, timecode, body)" by (cases b)
    from translate_block_result[OF tb[unfolded b]] obtain evs_b where
      fr: "translated_from b b'" and s2: "s2 = ext ?s1 evs_b" and cb: "list_all call_event evs_b"
      by (auto simp: translated_from_def b)
    have step: "translate_blocks ev j n k (b # bs) acc s =
        translate_blocks ev j n (Suc k) bs (acc @ [b']) s2"
      using False tb by (simp add: is_cancelled_eq)
    from Cons.IH[of "Suc k" "acc @ [b']" s2] obtain evs_r where
      r1: "snd (translate_blocks ev j n (Suc k) bs (acc @ [b']) s2) = ext s2 evs_r"
      and r2: "loop_events evs_r"
      and r3: "case fst (translate_blocks ev j n (Suc k) bs (acc @ [b']) s2) of
        None \<Rightarrow> (\<exists>pre. evs_r = pre @ [IsCancelled True] \<and> IsCancelled True \<notin> set pre) \<and>
                cancelled_now ev (ext s2 evs_r)
      | Some out \<Rightarrow> IsCancelled True \<notin> set evs_r \<and>
                (\<exists>out'. out = (acc @ [b']) @ out' \<and> list_all2 translated_from bs out')"
      by blast
    let ?evs = "IsCancelled False # evs_b @ evs_r"
    have e: "ext s2 evs_r = ext s ?evs" by (simp add: s2 ext_ext)
    have q: "IsCancelled True \<notin> set (IsCancelled False # evs_b)"
      using call_events_quiet[OF cb] by simp
    have l: "loop_events ?evs"
      using r2 call_events_loop[OF cb] loop_events_check[of False]
      by (auto simp: loop_events_def)
    show ?thesis
    proof (cases "fst (translate_blocks ev j n (Suc k) bs (acc @ [b']) s2)")
      case None
      with r3 obtain pre where pre: "evs_r = pre @ [IsCancelled True]" "IsCancelled True \<notin> set pre"
        and cn: "cancelled_now ev (ext s2 evs_r)" by auto
      have "?evs = (IsCancelled False # evs_b @ pre) @ [IsCancelled True]" by (simp add: pre)
      moreover have "IsCancelled True \<notin> set (IsCancelled False # evs_b @ pre)"
        using q pre(2) by simp
      ultimately have "\<exists>pre'. ?evs = pre' @ [IsCancelled True] \<and> IsCancelled True \<notin> set pre'"
        by blast
      with None cn l r1 show ?thesis
        unfolding step e by (intro exI[of _ ?evs]) simp
    next
      case (Some out)
      with r3 obtain out' where o: "IsCancelled True \<notin> set evs_r" "out = (acc @ [b']) @ out'"
        "list_all2 translated_from bs out'" by auto
      have "out = acc @ (b' # out')" "list_all2 translated_from (b # bs) (b' # out')"
        using o fr by simp_all
      then have "\<exists>out''. out = acc @ out'' \<and> list_all2 translated_from (b # bs) out''" by blast
      moreover have "IsCancelled True \<notin> set ?evs" using q o(1) by simp
      ultimately show ?thesis using Some l r1
        unfolding step e by (intro exI[of _ ?evs]) simp
    qed
  qed
qed

subsection \<open>A sample endpoint and a sample file\<close>

definition flaky_env :: env where
  "flaky_env =
     \<lparr>respond = (\<lambda>n rq. if n < 3 then HttpResponse 503 ''Service Unavailable'' (Inl ''no body'')
                         else HttpResponse 200 ''ok'' (Inr (''[de] '' @ req_user rq))),
      cancel_at = None\<rparr>"

definition movie_state :: state where
  "movie_state = \<lparr>fs = [''movie.srt'' \<mapsto> srt_text two_blocks], trace = []\<rparr>"

definition cancel_env :: "nat \<Rightarrow> env" where
  "cancel_env k = flaky_env\<lparr>cancel_at := Some k\<rparr>"

definition zh_job :: job where
  "zh_job = demo_job\<lparr>files := FileList [''movie.zh-CN.forced.srt''], target_lang := ''zh-CN''\<rparr>"

definition zh_state :: state where
  "zh_state = \<lparr>fs = [''movie.zh-CN.forced.srt'' \<mapsto> srt_text two_blocks], trace = []\<rparr>"

subsection \<open>One file\<close>

lemma loop_events_no_write: "loop_events evs \<Longrightarrow> WriteFile p c \<notin> set evs"
  by (auto simp: loop_events_def call_event_def)

lemma loop_events_no_progress: "loop_events evs \<Longrightarrow> Progress a b \<notin> set evs"
  by (auto simp: loop_events_def call_event_def)

lemma process_file_result:
  assumes "process_file ev j fp s = (r, s')"
  shows "\<exists>evs. trace s' = trace s @ evs \<and> (\<forall>a b. Progress a b \<notin> set evs) \<and>
     ((fs s' = fs s \<and> (\<forall>p c. WriteFile p c \<notin> set evs) \<and>
       (IsCancelled True \<notin> set evs \<or>
        ((\<exists>pre. evs = pre @ [IsCancelled True] \<and> IsCancelled True \<notin> set pre) \<and>
         cancelled_now ev s' \<and> r = Inr ()))) \<or>
      (IsCancelled True \<notin> set evs \<and> r = Inr () \<and>
       (\<exists>content out. fs s fp = Some content \<and>
          list_all2 translated_from (parse_srt content) out \<and>
          fs s' = (fs s)(get_target_path j fp \<mapsto> srt_text out))))"
proof -
  let ?tp = "get_target_path j fp"
  consider (exists) "?tp \<in> dom (fs s)"
    | (has_code) "?tp \<notin> dom (fs s)" "sublist (''.'' @ target_lang j @ ''.'') (lower fp)"
    | (missing) "?tp \<notin> dom (fs s)" "\<not> sublist (''.'' @ target_lang j @ ''.'') (lower fp)"
        "fs s fp = None"
    | (opened) content where "?tp \<notin> dom (fs s)"
        "\<not> sublist (''.'' @ target_lang j @ ''.'') (lower fp)" "fs s fp = Some content"
    by (cases "fs s fp") auto
  then show ?thesis
  proof cases
    case exists
    with assms have "s' = ext s [LogMessage (''Skipping '' @ fp @ '' - target already exists'')]"
      by (auto simp: process_file_def Let_def emit_ext)
    then show ?thesis
      by (intro exI[of _ "[LogMessage (''Skipping '' @ fp @ '' - target already exists'')]"])
         (simp add: trace_ext fs_ext)
  next
    case has_code
    with assms have
      "s' = ext s [LogMessage (''Skipping '' @ fp @ '' - already has target language code'')]"
      by (auto simp: process_file_def Let_def emit_ext)
    then show ?thesis
      by (intro exI[of _ "[LogMessage (''Skipping '' @ fp @ '' - already has target language code'')]"])
         (simp add: trace_ext fs_ext)
  next
    case missing
    with assms have "s' = s" by (auto simp: process_file_def Let_def)
    then show ?thesis by (intro exI[of _ "[]"]) simp
  next
    case opened
    show ?thesis
    proof (cases "parse_srt content = []")
      case True
      with opened assms have "s' = ext s [LogMessage (''No valid blocks found in '' @ fp)]"
        by (auto simp: process_file_def Let_def emit_ext)
      then show ?thesis
        by (intro exI[of _ "[LogMessage (''No valid blocks found in '' @ fp)]"])
           (simp add: trace_ext fs_ext)
    next
      case False
      let ?loop = "translate_blocks ev j (length (parse_srt content)) 0 (parse_srt content) [] s"
      from translate_blocks_result[of ev j "length (parse_srt content)" 0 "parse_srt content" "[]" s]
      obtain evs where l1: "snd ?loop = ext s evs" and l2: "loop_events evs"
        and l3: "case fst ?loop of
          None \<Rightarrow> (\<exists>pre. evs = pre @ [IsCancelled True] \<and> IsCancelled True \<notin> set pre) \<and>
                  cancelled_now ev (ext s evs)
        | Some out \<Rightarrow> IsCancelled True \<notin> set evs \<and>
                  (\<exists>out'. out = [] @ out' \<and> list_all2 translated_from (parse_srt content) out')"
        by blast
      show ?thesis
      proof (cases "fst ?loop")
        case None
        with l1 have lp: "?loop = (None, ext s evs)" by (metis prod.collapse)
        with opened False assms have "s' = ext s evs" "r = Inr ()"
          by (auto simp: process_file_def Let_def)
        with None l3 l2 show ?thesis
          by (intro exI[of _ evs])
             (auto simp: trace_ext fs_ext dest: loop_events_no_write loop_events_no_progress)
      next
        case (Some out)
        with l1 have lp: "?loop = (Some out, ext s evs)" by (metis prod.collapse)
        with opened False assms have s': "s' = emit (LogMessage (''Saved translated file: '' @ ?tp))
            (save_srt ?tp out (ext s evs))" and r: "r = Inr ()"
          by (auto simp: process_file_def Let_def)
        from Some l3 have q: "IsCancelled True \<notin> set evs"
          and o: "list_all2 translated_from (parse_srt content) out" by auto
        let ?evs = "evs @ [WriteFile ?tp (srt_text out), LogMessage (''Saved translated file: '' @ ?tp)]"
        have "trace s' = trace s @ ?evs" "fs s' = (fs s)(?tp \<mapsto> srt_text out)"
          by (simp_all add: s' save_srt_def emit_def ext_def)
        with q r o opened(3) l2 show ?thesis
          by (intro exI[of _ ?evs]) (auto dest: loop_events_no_progress)
      qed
    qed
  qed
qed

text \<open>
  C10. When the flag is observed while a file is processed, \<open>process_file\<close> returns without
  writing: the files are as before and no write is among the new events. Whenever
  \<open>process_file\<close> changes the files at all, it has written the whole output: one block for
  every parsed block, with its index and time range, and with its original text or the
  restored translation.
\<close>

theorem cancelled_file_not_written:
  assumes "process_file ev j fp s = (r, s')"
  shows "(IsCancelled True \<in> set (drop (length (trace s)) (trace s')) \<longrightarrow>
            r = Inr () \<and> fs s' = fs s \<and>
            (\<forall>p c. WriteFile p c \<notin> set (drop (length (trace s)) (trace s')))) \<and>
         (fs s' = fs s \<or>
          (\<exists>content out. fs s fp = Some content \<and>
             list_all2 translated_from (parse_srt content) out \<and>
             fs s' = (fs s)(get_target_path j fp \<mapsto> srt_text out)))"
proof -
  from process_file_result[OF assms] obtain evs where
    t: "trace s' = trace s @ evs" and
    c: "(fs s' = fs s \<and> (\<forall>p c. WriteFile p c \<notin> set evs) \<and>
       (IsCancelled True \<notin> set evs \<or>
        ((\<exists>pre. evs = pre @ [IsCancelled True] \<and> IsCancelled True \<notin> set pre) \<and>
         cancelled_now ev s' \<and> r = Inr ()))) \<or>
      (IsCancelled True \<notin> set evs \<and> r = Inr () \<and>
       (\<exists>content out. fs s fp = Some content \<and>
          list_all2 translated_from (parse_srt content) out \<and>
          fs s' = (fs s)(get_target_path j fp \<mapsto> srt_text out)))"
    by blast
  have d: "drop (length (trace s)) (trace s') = evs" by (simp add: t)
  from c show ?thesis unfolding d by blast
qed

theorem cancelled_file_not_written_witness:
  "IsCancelled True \<in> set (trace (snd (process_file (cancel_env 1) demo_job ''movie.srt'' movie_state))) \<and>
   fs (snd (process_file (cancel_env 1) demo_job ''movie.srt'' movie_state)) = fs movie_state \<and>
   (\<forall>p c. WriteFile p c \<notin>
      set (trace (snd (process_file (cancel_env 1) demo_job ''movie.srt'' movie_state))))"
proof -
  let ?r = "process_file (cancel_env 1) demo_job ''movie.srt'' movie_state"
  have h: "?r = (fst ?r, snd ?r)" by simp
  have t: "trace movie_state = []" by (simp add: movie_state_def)
  have c: "IsCancelled True \<in> set (drop (length (trace movie_state)) (trace (snd ?r)))"
    by code_simp
  from cancelled_file_not_written[OF h] c
  have "fs (snd ?r) = fs movie_state"
    "\<forall>p c. WriteFile p c \<notin> set (drop (length (trace movie_state)) (trace (snd ?r)))"
    by blast+
  with c show ?thesis by (simp add: t)
qed

text \<open>
  Both skip conditions of \<open>process_file\<close>, as the code tests them, end the function with
  one log message: nothing is posted, nothing is written and no exception is raised.
\<close>

lemma skip_conditions:
  assumes "get_target_path j fp \<in> dom (fs s) \<or>
           sublist (''.'' @ target_lang j @ ''.'') (lower fp)"
  shows "\<exists>m. process_file ev j fp s = (Inr (), emit (LogMessage m) s)"
  using assms by (auto simp: process_file_def Let_def)

text \<open>
  C5. A file whose name holds the target code as a dotted segment is processed all the same
  when the code has an upper-case letter: the path is lowered before the search and the code
  is not. For \<open>zh-CN\<close> and \<open>movie.zh-CN.forced.srt\<close> the endpoint is called four times and
  the output file is written; for \<open>de\<close> the same check skips \<open>movie.DE.forced.srt\<close>.
\<close>

theorem uppercase_code_not_skipped:
  "sublist (''.'' @ target_lang zh_job @ ''.'') ''movie.zh-CN.forced.srt'' \<and>
   \<not> sublist (''.'' @ target_lang zh_job @ ''.'') (lower ''movie.zh-CN.forced.srt'') \<and>
   posts (snd (process_file flaky_env zh_job ''movie.zh-CN.forced.srt'' zh_state)) = 4 \<and>
   fs (snd (process_file flaky_env zh_job ''movie.zh-CN.forced.srt'' zh_state))
     ''movie.zh-CN.forced.zh-CN.srt'' \<noteq> None \<and>
   trace (snd (process_file flaky_env demo_job ''movie.DE.forced.srt'' movie_state)) =
     [LogMessage ''Skipping movie.DE.forced.srt - already has target language code'']"
  by code_simp

subsection \<open>The loop over the files\<close>




text \<open>
  The progress events of the loop over the files. A pass through the loop that finds the
  flag unset announces its file, emits the progress and processes the file; the state it
  reaches does not depend on the files behind it.
\<close>

definition is_progress :: "event \<Rightarrow> bool" where
  "is_progress e = (case e of Progress a b \<Rightarrow> True | _ \<Rightarrow> False)"

lemma run_files_cancelled:
  "cancelled_now ev s \<Longrightarrow>
   run_files ev j tot idx (fp # fl) s =
     ext s [IsCancelled True, LogMessage ''Translation cancelled by user'']"
  by (simp add: is_cancelled_eq emit_ext ext_ext)

lemma run_files_step:
  assumes "\<not> cancelled_now ev s"
  shows "\<exists>s5 mid.
     trace s5 = trace s @ [IsCancelled False, LogMessage (''Processing file: '' @ fp),
                           Progress idx tot] @ mid \<and>
     (\<forall>a b. Progress a b \<notin> set mid) \<and>
     (\<forall>fl. run_files ev j tot idx (fp # fl) s =
        (if cancelled_now ev s5 then ext s5 [IsCancelled True]
         else run_files ev j tot (Suc idx) fl (ext s5 [IsCancelled False])))"
proof -
  let ?head = "[IsCancelled False, LogMessage (''Processing file: '' @ fp), Progress idx tot]"
  let ?s3 = "ext s ?head"
  obtain r s4 where pf: "process_file ev j fp ?s3 = (r, s4)"
    by (cases "process_file ev j fp ?s3")
  define err where "err = (case r of
      Inl e \<Rightarrow> [LogMessage (''Error processing '' @ fp @ '': '' @ e)] | Inr u \<Rightarrow> [])"
  let ?s5 = "ext s4 err"
  have s5: "(case r of Inl e \<Rightarrow> emit (LogMessage (''Error processing '' @ fp @ '': '' @ e)) s4
              | Inr u \<Rightarrow> s4) = ?s5"
    by (cases r) (simp_all add: err_def emit_ext ext_Nil)
  have err_q: "\<And>a b. Progress a b \<notin> set err"
    by (cases r) (simp_all add: err_def)
  from process_file_result[OF pf] obtain evs_pf where
    t4: "trace s4 = trace ?s3 @ evs_pf"
    and nop: "\<And>a b. Progress a b \<notin> set evs_pf"
    by blast
  have t5: "trace ?s5 = trace s @ ?head @ (evs_pf @ err)" by (simp add: trace_ext t4)
  have np: "\<forall>a b. Progress a b \<notin> set (evs_pf @ err)" using nop err_q by simp
  have step: "\<forall>fl. run_files ev j tot idx (fp # fl) s =
      (if cancelled_now ev ?s5 then ext ?s5 [IsCancelled True]
       else run_files ev j tot (Suc idx) fl (ext ?s5 [IsCancelled False]))"
    using assms pf by (simp add: is_cancelled_eq emit_ext ext_ext Let_def s5)
  from t5 np step show ?thesis by blast
qed

lemma run_files_progress:
  "\<exists>m evs. m \<le> length fl \<and>
     trace (run_files ev j tot idx fl s) = trace s @ evs \<and>
     filter is_progress evs = map (\<lambda>i. Progress i tot) [idx..<idx + m] \<and>
     (\<forall>i<m. prefix (trace (run_files ev j tot idx (take i fl) s) @
                      [IsCancelled False, LogMessage (''Processing file: '' @ fl ! i),
                       Progress (idx + i) tot])
                    (trace (run_files ev j tot idx fl s))) \<and>
     (\<not> cancelled_now ev (run_files ev j tot idx fl s) \<longrightarrow> m = length fl)"
proof (induction fl arbitrary: idx s)
  case Nil
  show ?case by (intro exI[of _ 0] exI[of _ "[]"]) simp
next
  case (Cons fp fl)
  let ?R = "run_files ev j tot idx (fp # fl) s"
  let ?head = "[IsCancelled False, LogMessage (''Processing file: '' @ fp), Progress idx tot]"
  show ?case
  proof (cases "cancelled_now ev s")
    case True
    let ?evs = "[IsCancelled True, LogMessage ''Translation cancelled by user'']"
    have r: "?R = ext s ?evs" by (rule run_files_cancelled[OF True])
    have "cancelled_now ev (ext s ?evs)"
      by (rule cancelled_now_mono[OF True]) (simp add: trace_ext)
    then show ?thesis unfolding r
      by (intro exI[of _ 0] exI[of _ ?evs]) (simp add: trace_ext is_progress_def)
  next
    case False
    from run_files_step[OF False, of fp idx tot j] obtain s5 mid where
      t5: "trace s5 = trace s @ ?head @ mid"
      and np: "\<forall>a b. Progress a b \<notin> set mid"
      and step: "\<And>fl. run_files ev j tot idx (fp # fl) s =
        (if cancelled_now ev s5 then ext s5 [IsCancelled True]
         else run_files ev j tot (Suc idx) fl (ext s5 [IsCancelled False]))"
      by blast
    have fmid: "filter is_progress mid = []"
      using np by (auto simp: filter_empty_conv is_progress_def split: event.splits)
    have first: "run_files ev j tot idx (take 0 (fp # fl)) s = s" by simp
    show ?thesis
    proof (cases "cancelled_now ev s5")
      case True
      let ?evs = "?head @ mid @ [IsCancelled True]"
      have r: "?R = ext s5 [IsCancelled True]" using step[of fl] True by (simp del: run_files.simps)
      have tr: "trace ?R = trace s @ ?evs" unfolding r by (simp add: trace_ext t5)
      have cn: "cancelled_now ev ?R" unfolding r
        by (rule cancelled_now_mono[OF True]) (simp add: trace_ext)
      have fl1: "filter is_progress ?evs = map (\<lambda>i. Progress i tot) [idx..<idx + 1]"
        by (simp add: fmid is_progress_def)
      have pre: "\<forall>i<1. prefix (trace (run_files ev j tot idx (take i (fp # fl)) s) @
                      [IsCancelled False, LogMessage (''Processing file: '' @ (fp # fl) ! i),
                       Progress (idx + i) tot]) (trace ?R)"
        unfolding tr by simp
      have "(1::nat) \<le> length (fp # fl)" by simp
      with tr fl1 pre cn show ?thesis by blast
    next
      case nc: False
      let ?s6 = "ext s5 [IsCancelled False]"
      have r: "?R = run_files ev j tot (Suc idx) fl ?s6"
        using step[of fl] nc by (simp del: run_files.simps)
      have t6: "trace ?s6 = trace s @ ?head @ mid @ [IsCancelled False]"
        by (simp add: trace_ext t5)
      from Cons.IH[of "Suc idx" ?s6] obtain m evs where
        m: "m \<le> length fl"
        and tr: "trace (run_files ev j tot (Suc idx) fl ?s6) = trace ?s6 @ evs"
        and fe: "filter is_progress evs = map (\<lambda>i. Progress i tot) [Suc idx..<Suc idx + m]"
        and pr: "\<forall>i<m. prefix (trace (run_files ev j tot (Suc idx) (take i fl) ?s6) @
                      [IsCancelled False, LogMessage (''Processing file: '' @ fl ! i),
                       Progress (Suc idx + i) tot])
                    (trace (run_files ev j tot (Suc idx) fl ?s6))"
        and al: "\<not> cancelled_now ev (run_files ev j tot (Suc idx) fl ?s6) \<longrightarrow> m = length fl"
        by blast
      let ?evs = "?head @ mid @ [IsCancelled False] @ evs"
      have tr': "trace ?R = trace s @ ?evs" unfolding r by (simp add: tr t6)
      have "[idx..<idx + Suc m] = idx # [Suc idx..<Suc idx + m]"
        by (simp add: upt_conv_Cons)
      then have fl': "filter is_progress ?evs = map (\<lambda>i. Progress i tot) [idx..<idx + Suc m]"
        by (simp add: fmid fe is_progress_def)
      have pre: "\<forall>i<Suc m. prefix (trace (run_files ev j tot idx (take i (fp # fl)) s) @
                      [IsCancelled False, LogMessage (''Processing file: '' @ (fp # fl) ! i),
                       Progress (idx + i) tot]) (trace ?R)"
      proof (intro allI impI)
        fix i assume i: "i < Suc m"
        show "prefix (trace (run_files ev j tot idx (take i (fp # fl)) s) @
                      [IsCancelled False, LogMessage (''Processing file: '' @ (fp # fl) ! i),
                       Progress (idx + i) tot]) (trace ?R)"
        proof (cases i)
          case 0
          then show ?thesis unfolding tr' by simp
        next
          case (Suc k)
          with i have k: "k < m" by simp
          have "run_files ev j tot idx (take i (fp # fl)) s =
                run_files ev j tot (Suc idx) (take k fl) ?s6"
            using step[of "take k fl"] nc by (simp add: Suc del: run_files.simps)
          with pr k show ?thesis unfolding r by (simp add: Suc del: run_files.simps)
        qed
      qed
      have "Suc m \<le> length (fp # fl)" using m by simp
      moreover have "\<not> cancelled_now ev ?R \<longrightarrow> Suc m = length (fp # fl)"
        using al unfolding r by simp
      ultimately show ?thesis using tr' fl' pre by blast
    qed
  qed
qed

text \<open>
  C7 (as amended). The progress events of a run over a list of files are, in order,
  \<open>(0, total)\<close>, \<open>(1, total)\<close>, ..., \<open>(m - 1, total)\<close> and at last \<open>(total, total)\<close>,
  where \<open>m\<close> is the number of files the run has started. The pair \<open>(i, total)\<close> is emitted
  when file number \<open>i\<close> is announced, directly behind the complete run over the first \<open>i\<close>
  files and the read of the flag: \<open>i\<close> counts the files completed. The pair
  \<open>(total, total)\<close> is followed by the last read of the flag, the completion log unless the
  flag is set, and \<open>finished\<close>; when the flag is not set then, every file has been reported.
  A run whose \<open>files\<close> is \<open>None\<close> leaves through the handler of the outer \<open>try\<close>: it
  emits the error signal and \<open>finished\<close>, and no progress.
\<close>

theorem final_progress:
  "(files j = FileList fl \<longrightarrow>
      (\<exists>m c. m \<le> length fl \<and>
         filter is_progress (drop (length (trace s)) (trace (run ev j s))) =
           map (\<lambda>i. Progress i (length fl)) [0..<m] @ [Progress (length fl) (length fl)] \<and>
         (\<forall>i<m. prefix (trace (run_files ev j (length fl) 0 (take i fl) s) @
                          [IsCancelled False, LogMessage (''Processing file: '' @ fl ! i),
                           Progress i (length fl)])
                        (trace (run ev j s))) \<and>
         (\<exists>evs. trace (run ev j s) =
                  trace s @ evs @ [Progress (length fl) (length fl), IsCancelled c] @
                  (if c then [] else [LogMessage ''Translation completed successfully!'']) @
                  [Finished]) \<and>
         (\<not> c \<longrightarrow> m = length fl))) \<and>
   (files j = PyNone \<longrightarrow>
      trace (run ev j s) =
        trace s @ [ErrorSignal (''Critical error: '' @ none_has_no_len), Finished])"
proof (intro conjI impI)
  assume fl: "files j = FileList fl"
  let ?t = "length fl"
  let ?s1 = "run_files ev j ?t 0 fl s"
  from run_files_progress[of fl ev j ?t 0 s] obtain m evs where
    all: "m \<le> ?t \<and>
     trace ?s1 = trace s @ evs \<and>
     filter is_progress evs = map (\<lambda>i. Progress i ?t) [0..<0 + m] \<and>
     (\<forall>i<m. prefix (trace (run_files ev j ?t 0 (take i fl) s) @
                      [IsCancelled False, LogMessage (''Processing file: '' @ fl ! i),
                       Progress (0 + i) ?t]) (trace ?s1)) \<and>
     (\<not> cancelled_now ev ?s1 \<longrightarrow> m = ?t)"
    by (elim exE)
  note m = conjunct1[OF all]
  note t1 = conjunct1[OF conjunct2[OF all]]
  have fe: "filter is_progress evs = map (\<lambda>i. Progress i ?t) [0..<m]"
    using conjunct1[OF conjunct2[OF conjunct2[OF all]]] by simp
  note pr = conjunct1[OF conjunct2[OF conjunct2[OF conjunct2[OF all]]]]
  note al = conjunct2[OF conjunct2[OF conjunct2[OF conjunct2[OF all]]]]
  let ?s2 = "ext ?s1 [Progress ?t ?t]"
  define c where "c = cancelled_now ev ?s2"
  let ?last = "[Progress ?t ?t, IsCancelled c] @
      (if c then [] else [LogMessage ''Translation completed successfully!'']) @ [Finished]"
  have r: "run ev j s = ext ?s2 ([IsCancelled c] @
      (if c then [] else [LogMessage ''Translation completed successfully!'']) @ [Finished])"
    using fl by (simp add: run_def Let_def is_cancelled_eq emit_ext ext_ext c_def)
  have tr: "trace (run ev j s) = trace s @ evs @ ?last"
    unfolding r by (simp add: trace_ext t1)
  have new: "drop (length (trace s)) (trace (run ev j s)) = evs @ ?last"
    by (simp add: tr)
  have 1: "filter is_progress (drop (length (trace s)) (trace (run ev j s))) =
      map (\<lambda>i. Progress i ?t) [0..<m] @ [Progress ?t ?t]"
    unfolding new by (simp add: fe is_progress_def)
  have 2: "\<forall>i<m. prefix (trace (run_files ev j ?t 0 (take i fl) s) @
                      [IsCancelled False, LogMessage (''Processing file: '' @ fl ! i),
                       Progress i ?t]) (trace (run ev j s))"
  proof (intro allI impI)
    fix i assume "i < m"
    with pr have "prefix (trace (run_files ev j ?t 0 (take i fl) s) @
                      [IsCancelled False, LogMessage (''Processing file: '' @ fl ! i),
                       Progress i ?t]) (trace ?s1)" by simp
    moreover have "prefix (trace ?s1) (trace (run ev j s))"
      unfolding tr t1 by simp
    ultimately show "prefix (trace (run_files ev j ?t 0 (take i fl) s) @
                      [IsCancelled False, LogMessage (''Processing file: '' @ fl ! i),
                       Progress i ?t]) (trace (run ev j s))"
      by (rule prefix_order.trans)
  qed
  have 3: "\<exists>evs. trace (run ev j s) = trace s @ evs @ ?last" using tr by blast
  have 4: "\<not> c \<longrightarrow> m = ?t"
  proof
    assume "\<not> c"
    have "\<not> cancelled_now ev ?s1"
    proof
      assume "cancelled_now ev ?s1"
      then have "cancelled_now ev ?s2" by (rule cancelled_now_mono) (simp add: trace_ext)
      with \<open>\<not> c\<close> show False by (simp add: c_def)
    qed
    with al show "m = ?t" by simp
  qed
  from m 1 2 3 4
  show "\<exists>m c. m \<le> length fl \<and>
         filter is_progress (drop (length (trace s)) (trace (run ev j s))) =
           map (\<lambda>i. Progress i (length fl)) [0..<m] @ [Progress (length fl) (length fl)] \<and>
         (\<forall>i<m. prefix (trace (run_files ev j (length fl) 0 (take i fl) s) @
                          [IsCancelled False, LogMessage (''Processing file: '' @ fl ! i),
                           Progress i (length fl)])
                        (trace (run ev j s))) \<and>
         (\<exists>evs. trace (run ev j s) =
                  trace s @ evs @ [Progress (length fl) (length fl), IsCancelled c] @
                  (if c then [] else [LogMessage ''Translation completed successfully!'']) @
                  [Finished]) \<and>
         (\<not> c \<longrightarrow> m = length fl)"
    by blast
next
  assume "files j = PyNone"
  then show "trace (run ev j s) =
        trace s @ [ErrorSignal (''Critical error: '' @ none_has_no_len), Finished]"
    by (simp add: run_def emit_def)
qed

theorem final_progress_witness:
  "filter is_progress (trace (run flaky_env demo_job movie_state)) = [Progress 0 1, Progress 1 1] \<and>
   prefix [IsCancelled False, LogMessage ''Processing file: movie.srt'', Progress 0 1]
     (trace (run flaky_env demo_job movie_state)) \<and>
   trace (run flaky_env (demo_job\<lparr>files := PyNone\<rparr>) movie_state) =
     [ErrorSignal (''Critical error: '' @ none_has_no_len), Finished]"
proof -
  let ?r = "run flaky_env demo_job movie_state"
  let ?fl = "[''movie.srt'']"
  have a: "files demo_job = FileList ?fl" by (simp add: demo_job_def)
  have b: "files (demo_job\<lparr>files := PyNone\<rparr>) = PyNone" by simp
  have t: "trace movie_state = []" by (simp add: movie_state_def)
  have compl: "last (butlast (trace ?r)) = LogMessage ''Translation completed successfully!''"
    by code_simp
  from mp[OF conjunct1[OF final_progress[of demo_job ?fl movie_state flaky_env]] a]
  obtain m c where all: "m \<le> length ?fl \<and>
         filter is_progress (drop (length (trace movie_state)) (trace ?r)) =
           map (\<lambda>i. Progress i (length ?fl)) [0..<m] @ [Progress (length ?fl) (length ?fl)] \<and>
         (\<forall>i<m. prefix (trace (run_files flaky_env demo_job (length ?fl) 0 (take i ?fl) movie_state) @
                          [IsCancelled False, LogMessage (''Processing file: '' @ ?fl ! i),
                           Progress i (length ?fl)])
                        (trace ?r)) \<and>
         (\<exists>evs. trace ?r =
                  trace movie_state @ evs @ [Progress (length ?fl) (length ?fl), IsCancelled c] @
                  (if c then [] else [LogMessage ''Translation completed successfully!'']) @
                  [Finished]) \<and>
         (\<not> c \<longrightarrow> m = length ?fl)"
    by (elim exE)
  note f = conjunct1[OF conjunct2[OF all]]
  note p = conjunct1[OF conjunct2[OF conjunct2[OF all]]]
  note al = conjunct2[OF conjunct2[OF conjunct2[OF conjunct2[OF all]]]]
  from conjunct1[OF conjunct2[OF conjunct2[OF conjunct2[OF all]]]]
  obtain evs where tr: "trace ?r =
                  trace movie_state @ evs @ [Progress (length ?fl) (length ?fl), IsCancelled c] @
                  (if c then [] else [LogMessage ''Translation completed successfully!'']) @
                  [Finished]"
    by (elim exE)
  have "\<not> c"
  proof
    assume c
    with tr have e: "trace ?r = (evs @ [Progress 1 1]) @ [IsCancelled True, Finished]"
      by (simp add: t)
    have "last (butlast ((evs @ [Progress 1 1]) @ [IsCancelled True, Finished])) = IsCancelled True"
      by (simp add: butlast_append)
    with compl show False unfolding e by simp
  qed
  with al have m1: "m = 1" by simp
  from f have 1: "filter is_progress (trace ?r) = [Progress 0 1, Progress 1 1]"
    unfolding m1 t by simp
  from p have "prefix (trace (run_files flaky_env demo_job (length ?fl) 0 (take 0 ?fl) movie_state) @
                      [IsCancelled False, LogMessage (''Processing file: '' @ ?fl ! 0),
                       Progress 0 (length ?fl)]) (trace ?r)"
    unfolding m1 by (rule allE[of _ 0]) simp
  then have 2: "prefix [IsCancelled False, LogMessage ''Processing file: movie.srt'', Progress 0 1]
     (trace ?r)" by (simp add: t)
  from mp[OF conjunct2[OF final_progress[of "demo_job\<lparr>files := PyNone\<rparr>" "[]" movie_state flaky_env]] b]
  have 3: "trace (run flaky_env (demo_job\<lparr>files := PyNone\<rparr>) movie_state) =
     [ErrorSignal (''Critical error: '' @ none_has_no_len), Finished]" by (simp add: t)
  from 1 2 3 show ?thesis by (intro conjI)
qed

text \<open>
  On the fatal exit no progress event is emitted at all.
\<close>

theorem fatal_exit_counterexample:
  "trace (run flaky_env (demo_job\<lparr>files := PyNone\<rparr>) empty_state) =
     [ErrorSignal (''Critical error: '' @ none_has_no_len), Finished] \<and>
   (\<forall>a b. Progress a b \<notin> set (trace (run flaky_env (demo_job\<lparr>files := PyNone\<rparr>) empty_state)))"
  by (simp add: run_def emit_def empty_state_def)



subsection \<open>A block whose translation fails\<close>

text \<open>
  What the endpoint's replies alone make of a file, without the worker's state: a reply is
  good when its status is 200 and its body holds the message content; a block is submitted
  until a reply is good, \<open>RETRY_COUNT + 1\<close> times at most, and \<open>first_reply\<close> gives
  the content of the first good reply and the number of requests this took, the first of
  them being request number \<open>p\<close> of the run. \<open>block_outcome\<close> is the block that stands in
  the output for a block: its text restored from a reply that is not empty, and its own text
  otherwise. \<open>expected_blocks\<close> and \<open>expected_posts\<close> run through the blocks of a file in
  order; \<open>requests\<close> are the requests posted in a list of events.
\<close>

definition reply_text :: "response \<Rightarrow> string option" where
  "reply_text r =
     (case r of
        HttpResponse code txt body \<Rightarrow>
          (case body of Inr content \<Rightarrow> if code = 200 then Some content else None | Inl e \<Rightarrow> None)
      | RequestException e \<Rightarrow> None)"

fun first_reply :: "env \<Rightarrow> request \<Rightarrow> nat \<Rightarrow> nat \<Rightarrow> string option \<times> nat" where
  "first_reply ev rq p 0 = (None, 0)"
| "first_reply ev rq p (Suc left) =
     (case reply_text (respond ev p rq) of
        Some content \<Rightarrow> (Some content, 1)
      | None \<Rightarrow> (case first_reply ev rq (Suc p) left of (r, u) \<Rightarrow> (r, Suc u)))"

definition block_request :: "job \<Rightarrow> block \<Rightarrow> request" where
  "block_request j b =
     (case b of (index, timecode, text) \<Rightarrow>
        payload j (generate_system_prompt j (fst (protect_content text)))
          (fst (protect_content text)))"

definition block_outcome :: "env \<Rightarrow> job \<Rightarrow> nat \<Rightarrow> block \<Rightarrow> block \<times> nat" where
  "block_outcome ev j p b =
     (case b of (index, timecode, text) \<Rightarrow>
        (case first_reply ev (block_request j b) p (RETRY_COUNT + 1) of
           (r, u) \<Rightarrow>
             ((index, timecode,
               (case r of
                  None \<Rightarrow> text
                | Some translated \<Rightarrow>
                    if translated = [] then text
                    else restore_content translated (snd (protect_content text)))),
              u)))"

fun expected_blocks :: "env \<Rightarrow> job \<Rightarrow> nat \<Rightarrow> block list \<Rightarrow> block list" where
  "expected_blocks ev j p [] = []"
| "expected_blocks ev j p (b # bs) =
     fst (block_outcome ev j p b) # expected_blocks ev j (p + snd (block_outcome ev j p b)) bs"

fun expected_posts :: "env \<Rightarrow> job \<Rightarrow> nat \<Rightarrow> block list \<Rightarrow> request list" where
  "expected_posts ev j p [] = []"
| "expected_posts ev j p (b # bs) =
     replicate (snd (block_outcome ev j p b)) (block_request j b) @
     expected_posts ev j (p + snd (block_outcome ev j p b)) bs"

definition requests :: "event list \<Rightarrow> request list" where
  "requests evs = concat (map (\<lambda>e. case e of Post rq \<Rightarrow> [rq] | _ \<Rightarrow> []) evs)"

lemma requests_simps:
  "requests [] = []"
  "requests (Post rq # evs) = rq # requests evs"
  "requests (LogMessage m # evs) = requests evs"
  "requests (Sleep n # evs) = requests evs"
  "requests (IsCancelled c # evs) = requests evs"
  "requests (WriteFile p w # evs) = requests evs"
  "requests (Progress a b # evs) = requests evs"
  "requests (xs @ ys) = requests xs @ requests ys"
  by (simp_all add: requests_def)

lemma length_requests: "length (requests evs) = length (filter is_post evs)"
  by (induction evs) (auto simp: requests_def is_post_def split: event.splits)

lemma posts_ext: "posts (ext s evs) = posts s + length (requests evs)"
  by (simp add: posts_def trace_ext length_requests)

lemma attempt_outcome_reply:
  "attempt_outcome a r = Inr content \<longleftrightarrow> reply_text r = Some content"
  "(\<exists>msg. attempt_outcome a r = Inl msg) \<longleftrightarrow> reply_text r = None"
  by (auto simp: attempt_outcome_def reply_text_def split: response.splits sum.splits)

lemma translate_attempts_reply:
  "\<exists>evs. translate_attempts ev rq a left s = (fst (first_reply ev rq (posts s) left), ext s evs) \<and>
         requests evs = replicate (snd (first_reply ev rq (posts s) left)) rq"
proof (induction left arbitrary: a s)
  case 0
  show ?case by (intro exI[of _ "[]"]) (simp add: ext_Nil requests_simps)
next
  case (Suc left)
  show ?case
  proof (cases "attempt_outcome a (respond ev (posts s) rq)")
    case (Inr content)
    then have "reply_text (respond ev (posts s) rq) = Some content"
      by (simp add: attempt_outcome_reply)
    with Inr show ?thesis
      by (intro exI[of _ "[Post rq]"]) (simp add: Let_def emit_ext requests_simps)
  next
    case (Inl msg)
    then have none: "reply_text (respond ev (posts s) rq) = None"
      using attempt_outcome_reply(2)[of a "respond ev (posts s) rq"] by blast
    define rest where "rest = (if a < RETRY_COUNT then [Sleep RETRY_DELAY] else [])"
    let ?head = "[Post rq, LogMessage msg] @ rest"
    let ?s3 = "ext s ?head"
    have rq_head: "requests ?head = [rq]" by (simp add: rest_def requests_simps)
    have p3: "posts ?s3 = Suc (posts s)" unfolding posts_ext rq_head by simp
    from Inl have step: "translate_attempts ev rq a (Suc left) s =
        translate_attempts ev rq (a + 1) left ?s3"
      by (simp add: Let_def emit_ext ext_ext rest_def)
    from Suc.IH[of "a + 1" ?s3] obtain evs where
      ih: "translate_attempts ev rq (a + 1) left ?s3 =
             (fst (first_reply ev rq (Suc (posts s)) left), ext ?s3 evs)"
      and rq: "requests evs = replicate (snd (first_reply ev rq (Suc (posts s)) left)) rq"
      unfolding p3 by blast
    have "translate_attempts ev rq a (Suc left) s =
            (fst (first_reply ev rq (posts s) (Suc left)), ext s (?head @ evs))"
      using step ih none by (simp add: ext_ext split: prod.splits)
    moreover have "requests (?head @ evs) =
        replicate (snd (first_reply ev rq (posts s) (Suc left))) rq"
      using rq none rq_head by (simp add: requests_simps split: prod.splits)
    ultimately show ?thesis by blast
  qed
qed

lemma translate_block_outcome:
  "\<exists>evs. translate_block ev j n k b s = (fst (block_outcome ev j (posts s) b), ext s evs) \<and>
         requests evs = replicate (snd (block_outcome ev j (posts s) b)) (block_request j b)"
proof -
  obtain index timecode body where b: "b = (index, timecode, body)" by (cases b)
  obtain p m where pm: "protect_content body = (p, m)" by (cases "protect_content body")
  let ?rq = "payload j (generate_system_prompt j p) p"
  have brq: "block_request j b = ?rq" by (simp add: block_request_def b pm)
  let ?log = "LogMessage (''Translating block '' @ str_nat (k + 1) @ ''/'' @ str_nat n)"
  let ?s1 = "ext s [?log]"
  have p1: "posts ?s1 = posts s" by (simp add: posts_ext requests_simps)
  from translate_attempts_reply[of ev ?rq 0 "RETRY_COUNT + 1" ?s1] obtain evs where
    ta: "translate_attempts ev ?rq 0 (RETRY_COUNT + 1) ?s1 =
           (fst (first_reply ev ?rq (posts s) (RETRY_COUNT + 1)), ext ?s1 evs)"
    and rq: "requests evs = replicate (snd (first_reply ev ?rq (posts s) (RETRY_COUNT + 1))) ?rq"
    unfolding p1 by blast
  obtain r u where fr: "first_reply ev ?rq (posts s) (RETRY_COUNT + 1) = (r, u)"
    by (cases "first_reply ev ?rq (posts s) (RETRY_COUNT + 1)")
  have tt: "translate_text ev j (generate_system_prompt j p) p (emit ?log s) = (r, ext ?s1 evs)"
    using ta fr by (simp add: translate_text_def emit_ext del: translate_attempts.simps)
  show ?thesis
  proof (cases "r = None \<or> r = Some []")
    case True
    let ?evs = "?log # evs @ [LogMessage ''Skipping block due to translation failure'']"
    from True have "translate_block ev j n k b s = ((index, timecode, body), ext s ?evs)"
      using tt pm by (auto simp: translate_block_def b Let_def emit_ext ext_ext)
    moreover from True have "fst (block_outcome ev j (posts s) b) = (index, timecode, body)"
      "snd (block_outcome ev j (posts s) b) = u"
      using fr by (auto simp: block_outcome_def b brq[unfolded b])
    moreover have "requests ?evs = replicate u ?rq" using rq fr by (simp add: requests_simps)
    ultimately show ?thesis unfolding brq by (intro exI[of _ ?evs]) simp
  next
    case False
    then obtain tr where tr: "r = Some tr" "tr \<noteq> []" by auto
    let ?evs = "?log # evs"
    from tr have "translate_block ev j n k b s = ((index, timecode, restore_content tr m), ext s ?evs)"
      using tt pm by (auto simp: translate_block_def b Let_def emit_ext ext_ext)
    moreover from tr have "fst (block_outcome ev j (posts s) b) = (index, timecode, restore_content tr m)"
      "snd (block_outcome ev j (posts s) b) = u"
      using fr pm by (auto simp: block_outcome_def b brq[unfolded b])
    moreover have "requests ?evs = replicate u ?rq" using rq fr by (simp add: requests_simps)
    ultimately show ?thesis unfolding brq by (intro exI[of _ ?evs]) simp
  qed
qed

lemma never_cancelled: "cancel_at ev = None \<Longrightarrow> \<not> cancelled_now ev s"
  by (simp add: cancelled_now_def)

lemma translate_blocks_expected:
  assumes "cancel_at ev = None"
  shows "\<exists>evs. translate_blocks ev j n k bs acc s =
                 (Some (acc @ expected_blocks ev j (posts s) bs), ext s evs) \<and>
               requests evs = expected_posts ev j (posts s) bs"
proof (induction bs arbitrary: k acc s)
  case Nil
  show ?case by (intro exI[of _ "[]"]) (simp add: ext_Nil requests_simps)
next
  case (Cons b bs)
  let ?s1 = "ext s [IsCancelled False]"
  have p1: "posts ?s1 = posts s" by (simp add: posts_ext requests_simps)
  from translate_block_outcome[of ev j n k b ?s1] obtain evs_b where
    tb: "translate_block ev j n k b ?s1 = (fst (block_outcome ev j (posts s) b), ext ?s1 evs_b)"
    and rb: "requests evs_b = replicate (snd (block_outcome ev j (posts s) b)) (block_request j b)"
    unfolding p1 by blast
  let ?b' = "fst (block_outcome ev j (posts s) b)"
  let ?u = "snd (block_outcome ev j (posts s) b)"
  let ?s2 = "ext ?s1 evs_b"
  have p2: "posts ?s2 = posts s + ?u" by (simp add: posts_ext requests_simps rb)
  from Cons.IH[of "Suc k" "acc @ [?b']" ?s2] obtain evs_r where
    ih: "translate_blocks ev j n (Suc k) bs (acc @ [?b']) ?s2 =
           (Some ((acc @ [?b']) @ expected_blocks ev j (posts s + ?u) bs), ext ?s2 evs_r)"
    and rr: "requests evs_r = expected_posts ev j (posts s + ?u) bs"
    unfolding p2 by blast
  let ?evs = "IsCancelled False # evs_b @ evs_r"
  have "translate_blocks ev j n k (b # bs) acc s =
          (Some (acc @ expected_blocks ev j (posts s) (b # bs)), ext s ?evs)"
    using never_cancelled[OF assms, of s] tb ih by (simp add: is_cancelled_eq ext_ext)
  moreover have "requests ?evs = expected_posts ev j (posts s) (b # bs)"
    using rb rr by (simp add: requests_simps)
  ultimately show ?case by blast
qed

lemma first_reply_posts: "0 < snd (first_reply ev rq p (Suc left))"
  by (simp split: option.splits prod.splits)

lemma expected_posts_all:
  "b \<in> set bs \<Longrightarrow> block_request j b \<in> set (expected_posts ev j p bs)"
proof (induction bs arbitrary: p)
  case Nil
  then show ?case by simp
next
  case (Cons x bs)
  have "snd (block_outcome ev j p x) = snd (first_reply ev (block_request j x) p (Suc RETRY_COUNT))"
    by (cases x) (simp add: block_outcome_def split: prod.splits del: first_reply.simps)
  with first_reply_posts[of ev "block_request j x" p RETRY_COUNT]
  have "0 < snd (block_outcome ev j p x)" by simp
  with Cons show ?case by auto
qed

lemma length_expected_blocks: "length (expected_blocks ev j p bs) = length bs"
  by (induction bs arbitrary: p) simp_all

lemma expected_append:
  "expected_blocks ev j p (xs @ ys) =
     expected_blocks ev j p xs @
     expected_blocks ev j (p + length (expected_posts ev j p xs)) ys"
  "expected_posts ev j p (xs @ ys) =
     expected_posts ev j p xs @
     expected_posts ev j (p + length (expected_posts ev j p xs)) ys"
  by (induction xs arbitrary: p) (simp_all add: add.assoc)

text \<open>
  C4. In a run that is not cancelled, when the translation call of one block of a file
  returns no text (or the empty text), \<open>process_file\<close> returns normally and the file is
  written. The failed block stands in the output with its original text, at its place. The
  blocks before it and the blocks behind it stand there as the endpoint's replies make them:
  every block behind the failed one is submitted, behind the requests of the failed block,
  and the output holds its restored translation when a reply was good.
\<close>

theorem soft_failure:
  assumes nc: "cancel_at ev = None"
    and ns1: "get_target_path j fp \<notin> dom (fs s)"
    and ns2: "\<not> sublist (''.'' @ target_lang j @ ''.'') (lower fp)"
    and readable: "fs s fp = Some content"
    and blocks: "parse_srt content = pre @ (index, timecode, txt) # post"
    and sb: "sb = snd (translate_blocks ev j (length (parse_srt content)) 0 pre [] s)"
    and fail: "fst (translate_text ev j (generate_system_prompt j (fst (protect_content txt)))
                 (fst (protect_content txt))
                 (emit (LogMessage (''Translating block '' @ str_nat (length pre + 1) @ ''/'' @
                          str_nat (length (parse_srt content))))
                    (snd (is_cancelled ev sb)))) \<in> {None, Some []}"
    and p': "p' = posts s + length (expected_posts ev j (posts s) (pre @ [(index, timecode, txt)]))"
  shows "\<exists>s'. process_file ev j fp s = (Inr (), s') \<and>
           fs s' = (fs s)(get_target_path j fp \<mapsto>
                     srt_text (expected_blocks ev j (posts s) pre @ (index, timecode, txt) #
                               expected_blocks ev j p' post)) \<and>
           requests (drop (length (trace s)) (trace s')) =
             expected_posts ev j (posts s) (pre @ [(index, timecode, txt)]) @
             expected_posts ev j p' post \<and>
           (\<forall>b\<in>set post. block_request j b \<in> set (expected_posts ev j p' post))"
proof -
  let ?n = "length (parse_srt content)"
  let ?b = "(index, timecode, txt)"
  from translate_blocks_expected[OF nc, of j ?n 0 pre "[]" s] obtain evs_pre where
    p: "translate_blocks ev j ?n 0 pre [] s =
          (Some (expected_blocks ev j (posts s) pre), ext s evs_pre)"
    and rp: "requests evs_pre = expected_posts ev j (posts s) pre" by auto
  from p sb have sb': "sb = ext s evs_pre" by simp
  let ?pk = "posts s + length (expected_posts ev j (posts s) pre)"
  have psb: "posts sb = ?pk" by (simp add: sb' posts_ext rp)
  let ?s1 = "ext sb [IsCancelled False]"
  have ic: "is_cancelled ev sb = (False, ?s1)"
    using never_cancelled[OF nc] by (simp add: is_cancelled_eq)
  have p1: "posts ?s1 = ?pk" by (simp add: posts_ext requests_simps psb)
  obtain pt m where pm: "protect_content txt = (pt, m)" by (cases "protect_content txt")
  let ?s2 = "emit (LogMessage (''Translating block '' @ str_nat (length pre + 1) @ ''/'' @
                          str_nat ?n)) ?s1"
  obtain res s3 where tt: "translate_text ev j (generate_system_prompt j pt) pt ?s2 = (res, s3)"
    by (cases "translate_text ev j (generate_system_prompt j pt) pt ?s2")
  from fail ic pm tt have res: "res = None \<or> res = Some []" by simp
  define s4 where "s4 = emit (LogMessage ''Skipping block due to translation failure'') s3"
  have tb: "translate_block ev j ?n (length pre) ?b ?s1 = (?b, s4)"
    using res pm tt by (auto simp: translate_block_def Let_def s4_def)
  from translate_block_outcome[of ev j ?n "length pre" ?b ?s1] tb
  have keep: "fst (block_outcome ev j ?pk ?b) = ?b" unfolding p1 by auto
  have split_b: "expected_blocks ev j (posts s) (pre @ ?b # post) =
      expected_blocks ev j (posts s) pre @ ?b # expected_blocks ev j p' post"
    using keep by (simp add: expected_append p' add.assoc)
  have split_p: "expected_posts ev j (posts s) (pre @ ?b # post) =
      expected_posts ev j (posts s) (pre @ [?b]) @ expected_posts ev j p' post"
    by (simp add: expected_append p' add.assoc)
  let ?out = "expected_blocks ev j (posts s) pre @ ?b # expected_blocks ev j p' post"
  from translate_blocks_expected[OF nc, of j ?n 0 "pre @ ?b # post" "[]" s] obtain evs where
    loop: "translate_blocks ev j ?n 0 (pre @ ?b # post) [] s = (Some ?out, ext s evs)"
    and rq: "requests evs =
      expected_posts ev j (posts s) (pre @ [?b]) @ expected_posts ev j p' post"
    unfolding split_b split_p by auto
  let ?tp = "get_target_path j fp"
  let ?s' = "emit (LogMessage (''Saved translated file: '' @ ?tp)) (save_srt ?tp ?out (ext s evs))"
  have "process_file ev j fp s = (Inr (), ?s')"
    using ns1 ns2 readable blocks loop by (simp add: process_file_def Let_def)
  moreover have "fs ?s' = (fs s)(?tp \<mapsto> srt_text ?out)"
    by (simp add: save_srt_def emit_def ext_def)
  moreover have "drop (length (trace s)) (trace ?s') =
      evs @ [WriteFile ?tp (srt_text ?out), LogMessage (''Saved translated file: '' @ ?tp)]"
    by (simp add: save_srt_def emit_def ext_def)
  then have "requests (drop (length (trace s)) (trace ?s')) =
      expected_posts ev j (posts s) (pre @ [?b]) @ expected_posts ev j p' post"
    by (simp add: requests_simps rq)
  moreover have "\<forall>b\<in>set post. block_request j b \<in> set (expected_posts ev j p' post)"
    by (simp add: expected_posts_all)
  ultimately show ?thesis by blast
qed

theorem soft_failure_witness:
  "\<exists>s'. process_file flaky_env demo_job ''movie.srt'' movie_state = (Inr (), s') \<and>
     fs s' = (fs movie_state)(''movie.de.srt'' \<mapsto>
               srt_text [(''1'', ''00:00:01,000 --> 00:00:02,000'', ''Hello <i>world</i>''),
                         (''2'', ''00:00:02,500 --> 00:00:04,000'', ''[de] Goodbye'')]) \<and>
     requests (trace s') =
       replicate 3 (block_request demo_job
                      (''1'', ''00:00:01,000 --> 00:00:02,000'', ''Hello <i>world</i>'')) @
       [block_request demo_job (''2'', ''00:00:02,500 --> 00:00:04,000'', ''Goodbye'')]"
proof -
  let ?b1 = "(''1'', ''00:00:01,000 --> 00:00:02,000'', ''Hello <i>world</i>'')"
  let ?b2 = "(''2'', ''00:00:02,500 --> 00:00:04,000'', ''Goodbye'')"
  have 1: "cancel_at flaky_env = None" by (simp add: flaky_env_def)
  have "fs movie_state (get_target_path demo_job ''movie.srt'') = None" by code_simp
  then have 2: "get_target_path demo_job ''movie.srt'' \<notin> dom (fs movie_state)"
    by (simp add: domIff)
  have 3: "\<not> sublist (''.'' @ target_lang demo_job @ ''.'') (lower ''movie.srt'')" by code_simp
  have 4: "fs movie_state ''movie.srt'' = Some (srt_text two_blocks)" by (simp add: movie_state_def)
  have 5: "parse_srt (srt_text two_blocks) = [] @ ?b1 # [?b2]" by code_simp
  have 6: "fst (translate_text flaky_env demo_job
          (generate_system_prompt demo_job (fst (protect_content ''Hello <i>world</i>'')))
          (fst (protect_content ''Hello <i>world</i>''))
          (emit (LogMessage (''Translating block '' @ str_nat (length ([] :: block list) + 1) @ ''/'' @
                   str_nat (length (parse_srt (srt_text two_blocks)))))
             (snd (is_cancelled flaky_env
                (snd (translate_blocks flaky_env demo_job (length (parse_srt (srt_text two_blocks))) 0 []
                   [] movie_state)))))) \<in> {None, Some []}"
    by code_simp
  have t: "trace movie_state = []" "posts movie_state = 0"
    by (simp_all add: movie_state_def posts_def)
  have tp: "get_target_path demo_job ''movie.srt'' = ''movie.de.srt''" by code_simp
  have e1: "expected_posts flaky_env demo_job 0 ([] @ [?b1]) = replicate 3 (block_request demo_job ?b1)"
    by code_simp
  have e2: "expected_blocks flaky_env demo_job 0 [] = []" by simp
  have e3: "expected_blocks flaky_env demo_job 3 [?b2] =
      [(''2'', ''00:00:02,500 --> 00:00:04,000'', ''[de] Goodbye'')]"
    by code_simp
  have e4: "expected_posts flaky_env demo_job 3 [?b2] = [block_request demo_job ?b2]"
    by code_simp
  have p': "3 = posts movie_state + length (expected_posts flaky_env demo_job (posts movie_state) ([] @ [?b1]))"
    unfolding t e1 by simp
  from soft_failure[OF 1 2 3 4 5 refl 6 p']
  show ?thesis unfolding t e1 e2 e3 e4 tp by simp
qed

end
